theory Spec2Isabelle
  imports Main
begin

section \<open>The pool state of ThreadPool.hpp\<close>

text \<open>
  The class \<^verbatim>\<open>ThreadPool\<close> is embedded as a record of its data members and one HOL
  function for each member function. A member function that only works inside critical
  sections of \<^verbatim>\<open>_mutex\<close> is a function from pool states to pool states. Tasks are
  opaque values of a type \<open>'a\<close>: the pool never looks inside a closure, it only stores,
  moves and calls it.

  An operating-system thread outlives the \<^verbatim>\<open>std::thread\<close> object that started it
  (after \<^verbatim>\<open>detach\<close>), so the threads and their handles are kept apart: \<open>workers\<close> is
  the table of all threads ever spawned, indexed by a thread number, each with the place
  it has reached in the loop of \<^verbatim>\<open>_working_task\<close>; \<open>threads\<close> is the vector
  \<^verbatim>\<open>_threads\<close>, a handle being \<open>Some tid\<close> while it is joinable and \<open>None\<close> once it
  has been joined or detached.

  The \<^verbatim>\<open>size_t\<close> counters are natural numbers. Each of them moves by single
  increments only, so none wraps around before it has been incremented as often as the
  machine word has values; the properties below are about executions shorter than that.
\<close>

datatype 'a wstate =
    Waiting      \<comment> \<open>at \<^verbatim>\<open>_condition.wait\<close>, holding no task\<close>
  | Running 'a   \<comment> \<open>inside \<^verbatim>\<open>task()\<close>\<close>
  | Exited       \<comment> \<open>returned from \<^verbatim>\<open>_working_task\<close>\<close>

record 'a pool =
  workers :: "'a wstate list"
  threads :: "nat option list"
  tasks :: "'a list"
  num_threads :: nat
  num_started :: nat
  num_killed :: nat
  num_finished :: nat
  num_detached :: nat
  stop :: bool

datatype error =
    Blocked      \<comment> \<open>a \<^verbatim>\<open>join\<close> that has not returned: its thread has not exited\<close>
  | Terminated   \<comment> \<open>an exception leaves a \<^verbatim>\<open>noexcept\<close> function: \<^verbatim>\<open>std::terminate\<close>\<close>
  | OutOfRange   \<comment> \<open>\<^verbatim>\<open>_threads[i]\<close> with \<open>i\<close> beyond the vector: undefined behaviour\<close>

subsection \<open>The worker loop\<close>

text \<open>
  One turn of one worker thread, as far as it touches the pool. A waiting worker whose
  predicate \<^verbatim>\<open>!_tasks.empty() || _stop\<close> holds either returns (stop set, queue empty)
  or moves the front task out of the queue; a worker whose predicate fails stays blocked.
  A running worker completes its task and counts it. The task's own effects are outside
  the pool.
\<close>

definition worker_step :: "nat \<Rightarrow> 'a pool \<Rightarrow> 'a pool" where
  "worker_step tid s =
     (if tid < length (workers s) then
        (case workers s ! tid of
           Waiting \<Rightarrow>
             (case tasks s of
                [] \<Rightarrow> if stop s then s\<lparr>workers := (workers s)[tid := Exited]\<rparr> else s
              | t # q \<Rightarrow> s\<lparr>workers := (workers s)[tid := Running t], tasks := q\<rparr>)
         | Running t \<Rightarrow>
             s\<lparr>workers := (workers s)[tid := Waiting], num_finished := num_finished s + 1\<rparr>
         | Exited \<Rightarrow> s)
      else s)"

text \<open>A schedule is the order in which worker threads take their turns.\<close>

fun run_workers :: "nat list \<Rightarrow> 'a pool \<Rightarrow> 'a pool" where
  "run_workers [] s = s"
| "run_workers (tid # sched) s = run_workers sched (worker_step tid s)"

definition exited :: "'a pool \<Rightarrow> nat \<Rightarrow> bool" where
  "exited s tid = (tid < length (workers s) \<and> workers s ! tid = Exited)"

subsection \<open>Construction\<close>

text \<open>\<^verbatim>\<open>_threads.emplace_back(_working_task)\<close>: a new thread, and its joinable handle.\<close>

definition emplace_thread :: "'a pool \<Rightarrow> 'a pool" where
  "emplace_thread s =
     s\<lparr>workers := workers s @ [Waiting], threads := threads s @ [Some (length (workers s))]\<rparr>"

text \<open>\<^verbatim>\<open>for (size_t i = i0; i < n; ++i) _threads.emplace_back(_working_task);\<close>\<close>

function spawn_loop :: "nat \<Rightarrow> nat \<Rightarrow> 'a pool \<Rightarrow> 'a pool" where
  "spawn_loop i n s = (if i < n then spawn_loop (Suc i) n (emplace_thread s) else s)"
  by pat_completeness auto
termination
  by (relation "measure (\<lambda>(i, n, s). n - i)") auto

definition ThreadPool :: "nat \<Rightarrow> 'a pool" where
  "ThreadPool n =
     spawn_loop 0 n
       \<lparr>workers = [], threads = [], tasks = [], num_threads = n, num_started = 0,
        num_killed = 0, num_finished = 0, num_detached = 0, stop = False\<rparr>"

subsection \<open>Submission and the queue\<close>

text \<open>
  \<^verbatim>\<open>Invoke\<close> binds the function and its arguments into one closure \<open>t\<close> and, when
  \<^verbatim>\<open>_stop\<close> is clear, places it at the back of \<^verbatim>\<open>_tasks\<close> and counts it. It returns
  \<^verbatim>\<open>void\<close> and has no other exit. The source reads \<^verbatim>\<open>_stop\<close> and increments
  \<^verbatim>\<open>_num_started\<close> outside the lock that guards the queue; here the call is one step.
\<close>

definition Invoke :: "'a \<Rightarrow> 'a pool \<Rightarrow> 'a pool" where
  "Invoke t s =
     (if \<not> stop s then s\<lparr>tasks := tasks s @ [t], num_started := num_started s + 1\<rparr>
      else s)"

definition PendingTaskNum :: "'a pool \<Rightarrow> nat" where
  "PendingTaskNum s = length (tasks s)"

text \<open>
  \<^verbatim>\<open>while (!_tasks.empty()) { _tasks.pop(); _num_killed++; }\<close>, the loop that
  \<^verbatim>\<open>KillAllPending\<close>, \<^verbatim>\<open>Stop\<close>, \<^verbatim>\<open>StopForced\<close> and \<^verbatim>\<open>ResetThreadNum\<close> each
  write out.
\<close>

function kill_loop :: "'a pool \<Rightarrow> 'a pool" where
  "kill_loop s =
     (if tasks s \<noteq> [] then kill_loop (s\<lparr>tasks := tl (tasks s), num_killed := num_killed s + 1\<rparr>)
      else s)"
  by pat_completeness auto
termination
  by (relation "measure (\<lambda>s. length (tasks s))") auto

definition KillAllPending :: "'a pool \<Rightarrow> 'a pool" where
  "KillAllPending s = kill_loop s"

subsection \<open>Waiting\<close>

text \<open>
  \<^verbatim>\<open>cv.wait(lock, pred)\<close> is \<^verbatim>\<open>while (!pred()) cv.wait(lock);\<close>. The waiter
  evaluates \<open>pred\<close> under the lock at the call and again after every wake-up; \<open>obs\<close>
  lists the pool states it finds at these moments, in order. The wait returns in the first
  of them that satisfies \<open>pred\<close>, and \<open>None\<close> says that the waiter is still blocked
  after the last one.
\<close>

fun cv_wait :: "('s \<Rightarrow> bool) \<Rightarrow> 's list \<Rightarrow> 's option" where
  "cv_wait pred [] = None"
| "cv_wait pred (s # obs) = (if pred s then Some s else cv_wait pred obs)"

definition WaitTill :: "nat \<Rightarrow> bool \<Rightarrow> 'a pool list \<Rightarrow> bool option" where
  "WaitTill num_tasks ignoreStopSignal obs =
     (case (if \<not> ignoreStopSignal
            then cv_wait (\<lambda>s. num_tasks \<le> num_finished s + num_killed s \<or> stop s) obs
            else cv_wait (\<lambda>s. num_tasks \<le> num_finished s + num_killed s) obs) of
        None \<Rightarrow> None
      | Some s \<Rightarrow> Some (num_tasks \<le> num_finished s))"

text \<open>
  \<^verbatim>\<open>WaitTillAll\<close> reads the two counters before \<^verbatim>\<open>WaitTill\<close> takes the lock: \<open>s\<close>
  is the pool state at that moment.
\<close>

definition WaitTillAll :: "bool \<Rightarrow> 'a pool \<Rightarrow> 'a pool list \<Rightarrow> bool option" where
  "WaitTillAll ignoreStopSignal s obs =
     WaitTill (num_started s + num_detached s) ignoreStopSignal obs"

text \<open>
  The specification's words for \<^verbatim>\<open>WaitTillAll\<close>, to compare with: it ``waits for every
  task ever submitted (plus a fixed allowance for previously detached capacity) to have
  finished or been killed'', or for the stop flag unless that is ignored, and tells
  whether that many tasks have finished.
\<close>

definition spec_WaitTillAll :: "bool \<Rightarrow> 'a pool \<Rightarrow> 'a pool list \<Rightarrow> bool option" where
  "spec_WaitTillAll ignoreStopSignal s obs =
     map_option (\<lambda>s'. num_started s + num_detached s \<le> num_finished s')
       (find (\<lambda>s'. num_started s + num_detached s \<le> num_finished s' + num_killed s' \<or>
                 \<not> ignoreStopSignal \<and> stop s') obs)"

subsection \<open>Stopping, detaching, resizing\<close>

definition Stop :: "'a pool \<Rightarrow> 'a pool" where
  "Stop s = kill_loop (s\<lparr>stop := True\<rparr>)"

text \<open>
  \<^verbatim>\<open>thread.detach(); _num_detached++;\<close> on \<^verbatim>\<open>_threads[i]\<close>. Detaching a thread
  that is not joinable throws \<^verbatim>\<open>std::system_error\<close>, which ends the program since
  \<^verbatim>\<open>Detach\<close> is \<^verbatim>\<open>noexcept\<close>.
\<close>

definition detach_thread :: "nat \<Rightarrow> 'a pool \<Rightarrow> error + 'a pool" where
  "detach_thread i s =
     (if i < length (threads s) then
        (case threads s ! i of
           None \<Rightarrow> Inl Terminated
         | Some tid \<Rightarrow>
             Inr (s\<lparr>threads := (threads s)[i := None], num_detached := num_detached s + 1\<rparr>))
      else Inl OutOfRange)"

fun detach_loop :: "nat list \<Rightarrow> 'a pool \<Rightarrow> error + 'a pool" where
  "detach_loop [] s = Inr s"
| "detach_loop (i # idx) s =
     (case detach_thread i s of Inl e \<Rightarrow> Inl e | Inr s' \<Rightarrow> detach_loop idx s')"

definition Detach :: "'a pool \<Rightarrow> error + 'a pool" where
  "Detach s = detach_loop [0..<length (threads s)] (s\<lparr>stop := True\<rparr>)"

text \<open>
  \<^verbatim>\<open>if (_threads[i].joinable()) _threads[i].join();\<close> The call of \<^verbatim>\<open>join\<close> returns
  once the thread has returned from \<^verbatim>\<open>_working_task\<close>; until then the caller is
  blocked.
\<close>

definition join_thread :: "nat \<Rightarrow> 'a pool \<Rightarrow> error + 'a pool" where
  "join_thread i s =
     (if i < length (threads s) then
        (case threads s ! i of
           None \<Rightarrow> Inr s
         | Some tid \<Rightarrow>
             if exited s tid then Inr (s\<lparr>threads := (threads s)[i := None]\<rparr>)
             else Inl Blocked)
      else Inl OutOfRange)"

fun join_loop :: "nat list \<Rightarrow> 'a pool \<Rightarrow> error + 'a pool" where
  "join_loop [] s = Inr s"
| "join_loop (i # idx) s =
     (case join_thread i s of Inl e \<Rightarrow> Inl e | Inr s' \<Rightarrow> join_loop idx s')"

text \<open>
  \<^verbatim>\<open>_threads.resize(k)\<close> destroys the handles from position \<open>k\<close> on, and the
  destructor of a joinable \<^verbatim>\<open>std::thread\<close> calls \<^verbatim>\<open>std::terminate\<close>; a vector
  shorter than \<open>k\<close> is filled up with handles of no thread.
\<close>

definition resize_threads :: "nat \<Rightarrow> 'a pool \<Rightarrow> error + 'a pool" where
  "resize_threads k s =
     (if list_ex (\<lambda>h. h \<noteq> None) (drop k (threads s)) then Inl Terminated
      else Inr (s\<lparr>threads := take k (threads s) @ replicate (k - length (threads s)) None\<rparr>))"

text \<open>
  \<^verbatim>\<open>ResetThreadNum\<close> gives the lock up while it joins. \<open>sched\<close> is what the worker
  threads do in that window; a thread that has exited takes no further turn, so the joins
  return exactly when every thread they wait for has exited by the end of the window.
\<close>

definition ResetThreadNum :: "nat \<Rightarrow> nat list \<Rightarrow> 'a pool \<Rightarrow> error + 'a pool" where
  "ResetThreadNum k sched s =
     (if k < num_threads s then
        (let s1 = kill_loop (s\<lparr>stop := True\<rparr>);
             s2 = run_workers sched s1
         in case join_loop [k..<num_threads s2] s2 of
              Inl e \<Rightarrow> Inl e
            | Inr s3 \<Rightarrow>
                (case resize_threads k s3 of
                   Inl e \<Rightarrow> Inl e
                 | Inr s4 \<Rightarrow> Inr (s4\<lparr>num_threads := k, stop := False\<rparr>)))
      else if num_threads s < k then
        Inr (spawn_loop (length (threads s)) k (s\<lparr>num_threads := k\<rparr>))
      else Inr s)"

definition StopForced :: "nat list \<Rightarrow> 'a pool \<Rightarrow> error + 'a pool" where
  "StopForced sched s = ResetThreadNum 0 sched (kill_loop (s\<lparr>stop := True\<rparr>))"

subsection \<open>Destruction\<close>

text \<open>
  The loop of \<^verbatim>\<open>Destroy\<close> over \<^verbatim>\<open>_threads\<close>: join the thread if it is joinable,
  then \<^verbatim>\<open>_num_killed++\<close> either way.
\<close>

fun destroy_loop :: "nat list \<Rightarrow> 'a pool \<Rightarrow> error + 'a pool" where
  "destroy_loop [] s = Inr s"
| "destroy_loop (i # idx) s =
     (case join_thread i s of
        Inl e \<Rightarrow> Inl e
      | Inr s' \<Rightarrow> destroy_loop idx (s'\<lparr>num_killed := num_killed s' + 1\<rparr>))"

text \<open>
  \<^verbatim>\<open>Destroy\<close> is the whole body of the destructor \<^verbatim>\<open>~ThreadPool\<close>. It sets
  \<^verbatim>\<open>_stop\<close> and leaves the queue as it is, so the workers go on taking tasks until the
  queue is empty; \<open>sched\<close> is what they do while \<^verbatim>\<open>Destroy\<close> joins.
\<close>

definition Destroy :: "nat list \<Rightarrow> 'a pool \<Rightarrow> error + 'a pool" where
  "Destroy sched s =
     destroy_loop [0..<length (threads s)] (run_workers sched (s\<lparr>stop := True\<rparr>))"

subsection \<open>Status\<close>

definition Valid :: "'a pool \<Rightarrow> bool" where
  "Valid s = (\<not> stop s)"

definition ThreadNum :: "'a pool \<Rightarrow> nat" where
  "ThreadNum s = num_threads s"

definition StartedNum :: "'a pool \<Rightarrow> nat" where
  "StartedNum s = num_started s"

definition FinishedNum :: "'a pool \<Rightarrow> nat" where
  "FinishedNum s = num_finished s"

definition KilledNum :: "'a pool \<Rightarrow> nat" where
  "KilledNum s = num_killed s"

definition DetachedNum :: "'a pool \<Rightarrow> nat" where
  "DetachedNum s = num_detached s"

subsection \<open>Tasks in flight, well-formed pools\<close>

text \<open>The tasks that some worker is executing.\<close>

fun is_running :: "'a wstate \<Rightarrow> bool" where
  "is_running (Running t) = True"
| "is_running Waiting = False"
| "is_running Exited = False"

definition in_flight :: "'a pool \<Rightarrow> nat" where
  "in_flight s = length (filter is_running (workers s))"

text \<open>
  What the constructor sets up and every member function keeps: \<^verbatim>\<open>_num_threads\<close> is
  the size of \<^verbatim>\<open>_threads\<close>, and a joinable handle belongs to a thread that was spawned.
\<close>

fun handle_ok :: "'a pool \<Rightarrow> nat option \<Rightarrow> bool" where
  "handle_ok s None = True"
| "handle_ok s (Some tid) = (tid < length (workers s))"

definition well_formed :: "'a pool \<Rightarrow> bool" where
  "well_formed s = (num_threads s = length (threads s) \<and> list_all (handle_ok s) (threads s))"

text \<open>
  A schedule that lets the workers run to their exit one after the other, once the stop
  flag is set: a worker needs two turns for each pending task, one for the task it may be
  running and one to return.
\<close>

definition drain_schedule :: "'a pool \<Rightarrow> nat list" where
  "drain_schedule s =
     concat (map (replicate (2 * length (tasks s) + 2)) [0..<length (workers s)])"

text \<open>
  The turns a worker still takes before it returns, when the stop flag is set, \<open>q\<close> tasks
  are pending and no other worker takes any of them.
\<close>

fun turns_left :: "'a wstate \<Rightarrow> nat \<Rightarrow> nat" where
  "turns_left Exited q = 0"
| "turns_left Waiting q = 2 * q + 1"
| "turns_left (Running t) q = 2 * q + 2"

subsection \<open>The calls step by step\<close>

text \<open>
  Between the critical sections of a call the workers run. The states a pool goes through
  are therefore those of a system of one calling thread, which issues the calls one after
  the other, and the workers: \<open>pc\<close> says where the calling thread is, and an action is
  one critical section of a call, one statement outside the lock, or a turn of a worker.
  \<^item> \<^verbatim>\<open>Invoke\<close> tests \<^verbatim>\<open>_stop\<close> and places the task in the queue (lines 79 to 85);
    \<^verbatim>\<open>_num_started++\<close> (line 86) comes after the lock has been released.
  \<^item> \<^verbatim>\<open>KillAllPending\<close> and \<^verbatim>\<open>Stop\<close> are one critical section each.
  \<^item> \<^verbatim>\<open>ResetThreadNum\<close> holds the lock throughout when it does not shrink the pool.
    When it does, it sets \<^verbatim>\<open>_stop\<close> and empties the queue (lines 195 to 202), joins
    the threads one by one without the lock (lines 203 to 209), and takes the lock again to
    resize and to clear \<^verbatim>\<open>_stop\<close> (lines 210 to 213).
  \<^item> \<^verbatim>\<open>StopForced\<close> is the critical section of \<^verbatim>\<open>Stop\<close> followed by
    \<^verbatim>\<open>ResetThreadNum(0)\<close>: the actions \<open>Call_Stop\<close> and then \<open>Reset_begin 0\<close>.
  \<^item> \<^verbatim>\<open>Detach\<close> sets \<^verbatim>\<open>_stop\<close> under the lock and then detaches the threads one by
    one, counting each.
  An action that the system cannot take in a state (the caller is elsewhere, a join is
  blocked, the program would be terminated) has no successor.
\<close>

datatype pc =
    Idle                \<comment> \<open>between two calls\<close>
  | Invoking            \<comment> \<open>in \<^verbatim>\<open>Invoke\<close>, the task in the queue and not yet counted\<close>
  | Resetting nat nat   \<comment> \<open>in \<^verbatim>\<open>ResetThreadNum(k)\<close>, about to join \<^verbatim>\<open>_threads[i]\<close>\<close>
  | Detaching nat       \<comment> \<open>in \<^verbatim>\<open>Detach\<close>, about to detach \<^verbatim>\<open>_threads[i]\<close>\<close>

datatype 'a action =
    Invoke_enqueue 'a
  | Invoke_count
  | Call_KillAllPending
  | Call_Stop
  | Reset_begin nat
  | Reset_join
  | Reset_end
  | Detach_begin
  | Detach_next
  | Detach_end
  | Turn nat

fun step :: "'a action \<Rightarrow> pc \<times> 'a pool \<Rightarrow> (pc \<times> 'a pool) option" where
  "step (Invoke_enqueue t) (Idle, s) =
     (if \<not> stop s then Some (Invoking, s\<lparr>tasks := tasks s @ [t]\<rparr>) else Some (Idle, s))"
| "step Invoke_count (Invoking, s) = Some (Idle, s\<lparr>num_started := num_started s + 1\<rparr>)"
| "step Call_KillAllPending (Idle, s) = Some (Idle, KillAllPending s)"
| "step Call_Stop (Idle, s) = Some (Idle, Stop s)"
| "step (Reset_begin k) (Idle, s) =
     (if k < num_threads s then Some (Resetting k k, kill_loop (s\<lparr>stop := True\<rparr>))
      else if num_threads s < k then
        Some (Idle, spawn_loop (length (threads s)) k (s\<lparr>num_threads := k\<rparr>))
      else Some (Idle, s))"
| "step Reset_join (Resetting k i, s) =
     (if i < num_threads s then
        (case join_thread i s of Inl e \<Rightarrow> None | Inr s' \<Rightarrow> Some (Resetting k (Suc i), s'))
      else None)"
| "step Reset_end (Resetting k i, s) =
     (if i < num_threads s then None
      else (case resize_threads k s of
              Inl e \<Rightarrow> None
            | Inr s' \<Rightarrow> Some (Idle, s'\<lparr>num_threads := k, stop := False\<rparr>)))"
| "step Detach_begin (Idle, s) = Some (Detaching 0, s\<lparr>stop := True\<rparr>)"
| "step Detach_next (Detaching i, s) =
     (if i < length (threads s) then
        (case detach_thread i s of Inl e \<Rightarrow> None | Inr s' \<Rightarrow> Some (Detaching (Suc i), s'))
      else None)"
| "step Detach_end (Detaching i, s) = (if i < length (threads s) then None else Some (Idle, s))"
| "step (Turn tid) (p, s) = Some (p, worker_step tid s)"
| "step _ _ = None"

fun run :: "'a action list \<Rightarrow> pc \<times> 'a pool \<Rightarrow> (pc \<times> 'a pool) option" where
  "run [] c = Some c"
| "run (a # acts) c = (case step a c of None \<Rightarrow> None | Some c' \<Rightarrow> run acts c')"

text \<open>The states of a pool between its construction and its destruction.\<close>

inductive reachable :: "pc \<times> 'a pool \<Rightarrow> bool" where
  construct: "reachable (Idle, ThreadPool n)"
| step: "reachable c \<Longrightarrow> step a c = Some c' \<Longrightarrow> reachable c'"

text \<open>
  \<^verbatim>\<open>_condition_finished.notify_all()\<close> stands at one place in the source: line 56, in
  the worker, after it has run a task and counted it. No member function calls it. A thread
  that waits on \<^verbatim>\<open>_condition_finished\<close> evaluates its predicate at the call and after
  each notification; \<open>observed acts c\<close> are the pool states it finds, when it runs as soon
  as it has been notified. Wake-ups without a notification, which the C++ standard allows
  and does not promise, are not counted on.
\<close>

fun notifies_finished :: "'a action \<Rightarrow> pc \<times> 'a pool \<Rightarrow> bool" where
  "notifies_finished (Turn tid) (p, s) =
     (tid < length (workers s) \<and> is_running (workers s ! tid))"
| "notifies_finished a c = False"

fun wakeups :: "'a action list \<Rightarrow> pc \<times> 'a pool \<Rightarrow> 'a pool list" where
  "wakeups [] c = []"
| "wakeups (a # acts) c =
     (case step a c of
        None \<Rightarrow> []
      | Some c' \<Rightarrow> (if notifies_finished a c then [snd c'] else []) @ wakeups acts c')"

definition observed :: "'a action list \<Rightarrow> pc \<times> 'a pool \<Rightarrow> 'a pool list" where
  "observed acts c = snd c # wakeups acts c"

text \<open>
  The account of the tasks: every task that was counted as started, and the \<open>u\<close> tasks
  that are in the queue and not yet counted, have been finished or killed, or are pending,
  or are being executed.
\<close>

fun uncounted :: "pc \<Rightarrow> nat" where
  "uncounted Invoking = 1"
| "uncounted p = 0"

definition conserved :: "nat \<Rightarrow> 'a pool \<Rightarrow> bool" where
  "conserved u s =
     (num_started s + u = num_finished s + num_killed s + length (tasks s) + in_flight s)"

section \<open>Properties\<close>

subsection \<open>The loops in closed form\<close>

declare kill_loop.simps [simp del]
declare spawn_loop.simps [simp del]

lemma kill_loop_eq:
  "kill_loop s = s\<lparr>tasks := [], num_killed := num_killed s + length (tasks s)\<rparr>"
proof (induction s rule: kill_loop.induct)
  case (1 s)
  show ?case
  proof (cases "tasks s")
    case Nil
    then show ?thesis by (subst kill_loop.simps) simp
  next
    case (Cons t q)
    then show ?thesis using "1.IH" by (subst kill_loop.simps) simp
  qed
qed

lemma spawn_loop_eq:
  "spawn_loop i n s =
     s\<lparr>workers := workers s @ replicate (n - i) Waiting,
       threads := threads s @ map Some [length (workers s)..<length (workers s) + (n - i)]\<rparr>"
proof (induction i n s rule: spawn_loop.induct)
  case (1 i n s)
  show ?case
  proof (cases "i < n")
    case True
    then have n: "n - i = Suc (n - Suc i)" by simp
    have "spawn_loop i n s = spawn_loop (Suc i) n (emplace_thread s)"
      using True by (subst spawn_loop.simps) simp
    also have "\<dots> = s\<lparr>workers := workers s @ replicate (n - i) Waiting,
       threads := threads s @ map Some [length (workers s)..<length (workers s) + (n - i)]\<rparr>"
      unfolding "1.IH" [OF True] n
      by (simp add: emplace_thread_def upt_rec [of "length (workers s)"])
    finally show ?thesis .
  next
    case False
    then show ?thesis by (subst spawn_loop.simps) simp
  qed
qed

lemma ThreadPool_eq:
  "ThreadPool n =
     \<lparr>workers = replicate n Waiting, threads = map Some [0..<n], tasks = [], num_threads = n,
      num_started = 0, num_killed = 0, num_finished = 0, num_detached = 0, stop = False\<rparr>"
  by (simp add: ThreadPool_def spawn_loop_eq)

subsection \<open>What a worker turn leaves alone\<close>

lemma worker_step_stop [simp]: "stop (worker_step tid s) = stop s"
  by (simp add: worker_step_def split: wstate.splits list.splits)

lemma run_workers_stop [simp]: "stop (run_workers sched s) = stop s"
  by (induction sched arbitrary: s) simp_all

lemma worker_step_no_tasks: "tasks s = [] \<Longrightarrow> tasks (worker_step tid s) = []"
  by (simp add: worker_step_def split: wstate.splits list.splits)

lemma run_workers_no_tasks: "tasks s = [] \<Longrightarrow> tasks (run_workers sched s) = []"
  by (induction sched arbitrary: s) (simp_all add: worker_step_no_tasks)

lemma Stop_stopped: "stop s \<Longrightarrow> tasks s = [] \<Longrightarrow> Stop s = s"
  by (simp add: Stop_def kill_loop_eq)

lemma Stop_stop: "stop (Stop s)"
  by (simp add: Stop_def kill_loop_eq)

lemma Stop_tasks: "tasks (Stop s) = []"
  by (simp add: Stop_def kill_loop_eq)

lemmas accessor_defs =
  ThreadNum_def StartedNum_def FinishedNum_def KilledNum_def DetachedNum_def Valid_def
  PendingTaskNum_def

subsection \<open>The wait loop\<close>

lemma cv_wait_find: "cv_wait pred obs = find pred obs"
  by (induction obs) simp_all

lemma cv_wait_Some_iff:
  "(cv_wait pred obs = Some s) =
     (\<exists>i<length obs. pred (obs ! i) \<and> (\<forall>j<i. \<not> pred (obs ! j)) \<and> s = obs ! i)"
  unfolding cv_wait_find find_Some_iff by blast

lemma cv_wait_None_iff: "(cv_wait pred obs = None) = (\<forall>i<length obs. \<not> pred (obs ! i))"
  unfolding cv_wait_find find_None_iff by (auto simp: in_set_conv_nth)

lemma WaitTill_cv_wait:
  "WaitTill n ign obs =
     map_option (\<lambda>s. n \<le> num_finished s)
       (cv_wait (\<lambda>s. n \<le> num_finished s + num_killed s \<or> \<not> ign \<and> stop s) obs)"
  by (cases ign) (simp_all add: WaitTill_def split: option.splits)

lemma worker_step_length [simp]: "length (workers (worker_step tid s)) = length (workers s)"
  by (simp add: worker_step_def split: wstate.splits list.splits)

lemma worker_step_threads [simp]: "threads (worker_step tid s) = threads s"
  by (simp add: worker_step_def split: wstate.splits list.splits)

lemma worker_step_num_threads [simp]: "num_threads (worker_step tid s) = num_threads s"
  by (simp add: worker_step_def split: wstate.splits list.splits)

lemma worker_step_num_killed [simp]: "num_killed (worker_step tid s) = num_killed s"
  by (simp add: worker_step_def split: wstate.splits list.splits)

lemma worker_step_num_started [simp]: "num_started (worker_step tid s) = num_started s"
  by (simp add: worker_step_def split: wstate.splits list.splits)

lemma worker_step_num_detached [simp]: "num_detached (worker_step tid s) = num_detached s"
  by (simp add: worker_step_def split: wstate.splits list.splits)

lemma run_workers_length [simp]: "length (workers (run_workers sched s)) = length (workers s)"
  by (induction sched arbitrary: s) simp_all

lemma run_workers_threads [simp]: "threads (run_workers sched s) = threads s"
  by (induction sched arbitrary: s) simp_all

lemma run_workers_num_threads [simp]: "num_threads (run_workers sched s) = num_threads s"
  by (induction sched arbitrary: s) simp_all

lemma run_workers_num_killed [simp]: "num_killed (run_workers sched s) = num_killed s"
  by (induction sched arbitrary: s) simp_all

lemma run_workers_num_started [simp]: "num_started (run_workers sched s) = num_started s"
  by (induction sched arbitrary: s) simp_all

lemma run_workers_num_detached [simp]: "num_detached (run_workers sched s) = num_detached s"
  by (induction sched arbitrary: s) simp_all

subsection \<open>Joins\<close>

lemma join_thread_Inr:
  assumes "join_thread i s = Inr s'"
  shows "s' = s\<lparr>threads := (threads s)[i := None]\<rparr>" and "i < length (threads s)"
    and "threads s ! i = Some tid \<Longrightarrow> exited s tid"
proof -
  show i: "i < length (threads s)"
    using assms by (simp add: join_thread_def split: if_splits)
  show "s' = s\<lparr>threads := (threads s)[i := None]\<rparr>"
  proof (cases "threads s ! i")
    case None
    then have "(threads s)[i := None] = threads s"
      by (metis list_update_id)
    then show ?thesis using assms i None by (simp add: join_thread_def)
  next
    case (Some a)
    then show ?thesis using assms i by (simp add: join_thread_def split: if_splits)
  qed
  show "exited s tid" if "threads s ! i = Some tid"
    using assms i that by (simp add: join_thread_def split: if_splits)
qed

lemma exited_threads_update [simp]: "exited (s\<lparr>threads := ts\<rparr>) tid = exited s tid"
  by (simp add: exited_def)

lemma exited_num_killed_update [simp]: "exited (s\<lparr>num_killed := n\<rparr>) tid = exited s tid"
  by (simp add: exited_def)

lemma join_loop_Inr:
  assumes "join_loop idx s = Inr s'"
  shows "s' = s\<lparr>threads := threads s'\<rparr> \<and> length (threads s') = length (threads s) \<and>
    (\<forall>i. threads s' ! i = (if i \<in> set idx then None else threads s ! i))"
  using assms
proof (induction idx arbitrary: s)
  case Nil
  then show ?case by simp
next
  case (Cons i idx)
  from Cons.prems obtain s1 where j: "join_thread i s = Inr s1" and l: "join_loop idx s1 = Inr s'"
    by (auto split: sum.splits)
  note s1 = join_thread_Inr(1,2) [OF j]
  from Cons.IH [OF l] have ih: "s' = s1\<lparr>threads := threads s'\<rparr>"
    "length (threads s') = length (threads s1)"
    "\<And>k. threads s' ! k = (if k \<in> set idx then None else threads s1 ! k)"
    by simp_all
  have "s' = s\<lparr>threads := threads s'\<rparr>"
    by (subst ih(1)) (simp add: s1(1))
  moreover have "length (threads s') = length (threads s)"
    by (simp add: ih(2) s1(1))
  moreover have "threads s' ! k = (if k \<in> set (i # idx) then None else threads s ! k)" for k
    using s1(2) by (simp add: ih(3) s1(1) nth_list_update)
  ultimately show ?case by blast
qed

lemma ResetThreadNum_result:
  "(ResetThreadNum k sched s = Inr s' \<longrightarrow>
      ThreadNum s' = k \<and> (k < ThreadNum s \<longrightarrow> Valid s' \<and> \<not> stop s')) \<and>
   (k = ThreadNum s \<longrightarrow> ResetThreadNum k sched s = Inr s)"
  by (auto simp: ResetThreadNum_def Let_def resize_threads_def spawn_loop_eq accessor_defs
      split: if_splits sum.splits)

lemma destroy_loop_Inr:
  assumes "destroy_loop idx s = Inr s'"
  shows "s' = s\<lparr>threads := threads s', num_killed := num_killed s + length idx\<rparr> \<and>
    length (threads s') = length (threads s) \<and>
    (\<forall>i. threads s' ! i = (if i \<in> set idx then None else threads s ! i)) \<and>
    (\<forall>i tid. i \<in> set idx \<and> threads s ! i = Some tid \<longrightarrow> exited s tid)"
  using assms
proof (induction idx arbitrary: s)
  case Nil
  then show ?case by simp
next
  case (Cons i idx)
  from Cons.prems obtain s1 where j: "join_thread i s = Inr s1"
    and l: "destroy_loop idx (s1\<lparr>num_killed := num_killed s1 + 1\<rparr>) = Inr s'"
    by (auto split: sum.splits)
  note s1 = join_thread_Inr(1,2) [OF j]
  let ?s2 = "s1\<lparr>num_killed := num_killed s1 + 1\<rparr>"
  from Cons.IH [OF l] have ih:
    "s' = ?s2\<lparr>threads := threads s', num_killed := num_killed ?s2 + length idx\<rparr>"
    "length (threads s') = length (threads ?s2)"
    "\<And>k. threads s' ! k = (if k \<in> set idx then None else threads ?s2 ! k)"
    "\<And>k tid. k \<in> set idx \<Longrightarrow> threads ?s2 ! k = Some tid \<Longrightarrow> exited ?s2 tid"
    by simp_all
  have "s' = s\<lparr>threads := threads s', num_killed := num_killed s + length (i # idx)\<rparr>"
    by (subst ih(1)) (simp add: s1(1))
  moreover have "length (threads s') = length (threads s)"
    by (simp add: ih(2) s1(1))
  moreover have "threads s' ! k = (if k \<in> set (i # idx) then None else threads s ! k)" for k
    using s1(2) by (simp add: ih(3) s1(1) nth_list_update)
  moreover have "exited s tid" if "k \<in> set (i # idx)" "threads s ! k = Some tid" for k tid
  proof (cases "k = i")
    case True
    then show ?thesis using join_thread_Inr(3) [OF j] that by simp
  next
    case False
    then have "k \<in> set idx" "threads ?s2 ! k = Some tid"
      using that by (simp_all add: s1(1))
    from ih(4) [OF this] show ?thesis by (simp add: s1(1))
  qed
  ultimately show ?case by blast
qed

lemma Destroy_result:
  assumes "Destroy sched s = Inr s'"
  shows "stop s' \<and>
    (\<forall>i < length (threads s). \<forall>tid. threads s ! i = Some tid \<longrightarrow> exited s' tid) \<and>
    threads s' = replicate (length (threads s)) None \<and>
    KilledNum s' = KilledNum s + length (threads s)"
proof -
  let ?s2 = "run_workers sched (s\<lparr>stop := True\<rparr>)"
  from assms have d: "destroy_loop [0..<length (threads ?s2)] ?s2 = Inr s'"
    by (simp add: Destroy_def)
  note r = destroy_loop_Inr [OF d]
  from r have eq: "s' = ?s2\<lparr>threads := threads s',
      num_killed := num_killed ?s2 + length [0..<length (threads ?s2)]\<rparr>"
    by blast
  have st: "stop s'"
    by (subst eq) simp
  have k: "KilledNum s' = KilledNum s + length (threads s)"
    unfolding KilledNum_def by (subst eq) simp
  have w: "workers s' = workers ?s2"
    by (subst eq) simp
  have ex: "exited s' tid" if "i < length (threads s)" "threads s ! i = Some tid" for i tid
  proof -
    from r that have "exited ?s2 tid" by simp
    then show ?thesis by (simp add: exited_def w)
  qed
  have len: "length (threads s') = length (threads s)"
    using r by simp
  have "threads s' ! i = None" if "i < length (threads s)" for i
    using r that by simp
  then have th: "threads s' = replicate (length (threads s)) None"
    using len by (simp add: list_eq_iff_nth_eq)
  show ?thesis using st ex th k by blast
qed

lemma StopForced_zero: "num_threads s = 0 \<Longrightarrow> StopForced sched s = Inr (Stop s)"
  by (simp add: StopForced_def ResetThreadNum_def Stop_def kill_loop_eq)

lemma resize_threads_Inr:
  "resize_threads k s = Inr s' \<Longrightarrow>
     s' = s\<lparr>threads := take k (threads s) @ replicate (k - length (threads s)) None\<rparr>"
  by (simp add: resize_threads_def split: if_splits)

lemma ResetThreadNum_shrink:
  assumes "ResetThreadNum k sched s = Inr s'" and "k < num_threads s"
  shows "s' = (run_workers sched (kill_loop (s\<lparr>stop := True\<rparr>)))
    \<lparr>threads := take k (threads s) @ replicate (k - length (threads s)) None,
     num_threads := k, stop := False\<rparr>"
proof -
  let ?s2 = "run_workers sched (kill_loop (s\<lparr>stop := True\<rparr>))"
  from assms obtain s3 s4 where j: "join_loop [k..<num_threads ?s2] ?s2 = Inr s3"
    and r: "resize_threads k s3 = Inr s4" and e: "s' = s4\<lparr>num_threads := k, stop := False\<rparr>"
    by (auto simp: ResetThreadNum_def Let_def split: sum.splits)
  note j3 = join_loop_Inr [OF j]
  from j3 have s3: "s3 = ?s2\<lparr>threads := threads s3\<rparr>" by blast
  have len: "length (threads s3) = length (threads s)"
    using j3 by (simp add: kill_loop_eq)
  have "threads s3 ! i = threads s ! i" if "i < k" for i
    using j3 that by (simp add: kill_loop_eq)
  then have tk: "take k (threads s3) = take k (threads s)"
    by (simp add: list_eq_iff_nth_eq len)
  show ?thesis
    unfolding e resize_threads_Inr [OF r] tk len by (subst s3) simp
qed

lemma StopForced_result:
  "(StopForced sched s = Inr s' \<and> 1 \<le> ThreadNum s \<longrightarrow>
      Valid s' \<and> ThreadNum s' = 0 \<and> threads s' = [] \<and>
      tasks (Invoke t s') = [t] \<and> StartedNum (Invoke t s') = StartedNum s' + 1) \<and>
   (ThreadNum s = 0 \<longrightarrow>
      StopForced sched s = Inr (Stop s) \<and> \<not> Valid (Stop s) \<and> Invoke t (Stop s) = Stop s)"
proof -
  have "Valid s' \<and> ThreadNum s' = 0 \<and> threads s' = [] \<and>
      tasks (Invoke t s') = [t] \<and> StartedNum (Invoke t s') = StartedNum s' + 1"
    if r: "StopForced sched s = Inr s'" and n: "1 \<le> ThreadNum s"
  proof -
    let ?s0 = "kill_loop (s\<lparr>stop := True\<rparr>)"
    have "0 < num_threads ?s0"
      using n by (simp add: kill_loop_eq ThreadNum_def)
    note s' = ResetThreadNum_shrink [OF r [unfolded StopForced_def] this]
    have "tasks (run_workers sched (kill_loop (?s0\<lparr>stop := True\<rparr>))) = []"
      by (rule run_workers_no_tasks) (simp add: kill_loop_eq)
    then show ?thesis
      unfolding s' by (simp add: accessor_defs Invoke_def)
  qed
  moreover have "StopForced sched s = Inr (Stop s) \<and> \<not> Valid (Stop s) \<and> Invoke t (Stop s) = Stop s"
    if "ThreadNum s = 0"
    using that by (simp add: StopForced_zero ThreadNum_def Valid_def Stop_stop Invoke_def)
  ultimately show ?thesis by blast
qed

subsection \<open>Schedules that let the joins return\<close>

lemma exited_worker_step: "exited s tid \<Longrightarrow> exited (worker_step tid' s) tid"
  by (cases "tid' = tid")
    (auto simp: exited_def worker_step_def split: wstate.splits list.splits)

lemma exited_run_workers: "exited s tid \<Longrightarrow> exited (run_workers sched s) tid"
  by (induction sched arbitrary: s) (simp_all add: exited_worker_step)

lemma worker_step_tasks_le: "length (tasks (worker_step tid s)) \<le> length (tasks s)"
  by (simp add: worker_step_def split: wstate.splits list.splits)

lemma run_workers_tasks_le: "length (tasks (run_workers sched s)) \<le> length (tasks s)"
proof (induction sched arbitrary: s)
  case Nil
  show ?case by simp
next
  case (Cons tid sched)
  have "length (tasks (run_workers sched (worker_step tid s))) \<le> length (tasks (worker_step tid s))"
    by (rule Cons.IH)
  also have "\<dots> \<le> length (tasks s)" by (rule worker_step_tasks_le)
  finally show ?case by simp
qed

lemma worker_runs_to_exit:
  assumes "stop s" and "tid < length (workers s)"
    and "turns_left (workers s ! tid) (length (tasks s)) \<le> n"
  shows "exited (run_workers (replicate n tid) s) tid"
  using assms
proof (induction n arbitrary: s)
  case 0
  then show ?case by (cases "workers s ! tid") (simp_all add: exited_def)
next
  case (Suc n)
  let ?s1 = "worker_step tid s"
  show ?case
  proof (cases "workers s ! tid")
    case Exited
    then have "exited s tid" using Suc.prems(2) by (simp add: exited_def)
    then show ?thesis by (rule exited_run_workers)
  next
    case (Running t)
    have "exited (run_workers (replicate n tid) ?s1) tid"
      using Suc.prems Running by (intro Suc.IH) (simp_all add: worker_step_def)
    then show ?thesis by simp
  next
    case Waiting
    show ?thesis
    proof (cases "tasks s")
      case Nil
      then have "exited ?s1 tid"
        using Suc.prems Waiting by (simp add: worker_step_def exited_def)
      then have "exited (run_workers (replicate n tid) ?s1) tid" by (rule exited_run_workers)
      then show ?thesis by simp
    next
      case (Cons t q)
      have "exited (run_workers (replicate n tid) ?s1) tid"
        using Suc.prems Waiting Cons by (intro Suc.IH) (simp_all add: worker_step_def)
      then show ?thesis by simp
    qed
  qed
qed

lemma turns_left_le: "turns_left w q \<le> 2 * q + 2"
  by (cases w) simp_all

lemma run_workers_append: "run_workers (xs @ ys) s = run_workers ys (run_workers xs s)"
  by (induction xs arbitrary: s) simp_all

lemma workers_run_to_exit:
  assumes "stop s" and "\<forall>tid \<in> set tids. tid < length (workers s)"
    and "2 * length (tasks s) + 2 \<le> n"
  shows "\<forall>tid \<in> set tids. exited (run_workers (concat (map (replicate n) tids)) s) tid"
  using assms
proof (induction tids arbitrary: s)
  case Nil
  show ?case by simp
next
  case (Cons tid tids)
  let ?s1 = "run_workers (replicate n tid) s"
  have "turns_left (workers s ! tid) (length (tasks s)) \<le> n"
    using turns_left_le [of "workers s ! tid" "length (tasks s)"] Cons.prems(3) by simp
  with Cons.prems have e: "exited ?s1 tid"
    by (intro worker_runs_to_exit) simp_all
  have "length (tasks ?s1) \<le> length (tasks s)" by (rule run_workers_tasks_le)
  with Cons.prems have ih: "\<forall>x \<in> set tids.
      exited (run_workers (concat (map (replicate n) tids)) ?s1) x"
    by (intro Cons.IH) simp_all
  show ?case
    using ih exited_run_workers [OF e] by (simp add: run_workers_append)
qed

lemma join_loop_returns:
  assumes "\<forall>i \<in> set idx. i < length (threads s)"
    and "\<forall>i < length (threads s). \<forall>tid. threads s ! i = Some tid \<longrightarrow> exited s tid"
  shows "\<exists>s'. join_loop idx s = Inr s'"
  using assms
proof (induction idx arbitrary: s)
  case Nil
  show ?case by simp
next
  case (Cons i idx)
  from Cons.prems have i: "i < length (threads s)" by simp
  with Cons.prems(2) obtain s1 where j: "join_thread i s = Inr s1"
    by (cases "threads s ! i") (simp_all add: join_thread_def)
  note s1 = join_thread_Inr(1) [OF j]
  have "\<exists>s'. join_loop idx s1 = Inr s'"
    using Cons.prems unfolding s1 by (intro Cons.IH) (auto simp: nth_list_update)
  then show ?case by (simp add: j)
qed

lemma destroy_loop_returns:
  assumes "\<forall>i \<in> set idx. i < length (threads s)"
    and "\<forall>i < length (threads s). \<forall>tid. threads s ! i = Some tid \<longrightarrow> exited s tid"
  shows "\<exists>s'. destroy_loop idx s = Inr s'"
  using assms
proof (induction idx arbitrary: s)
  case Nil
  show ?case by simp
next
  case (Cons i idx)
  from Cons.prems have i: "i < length (threads s)" by simp
  with Cons.prems(2) obtain s1 where j: "join_thread i s = Inr s1"
    by (cases "threads s ! i") (simp_all add: join_thread_def)
  note s1 = join_thread_Inr(1) [OF j]
  have "\<exists>s'. destroy_loop idx (s1\<lparr>num_killed := num_killed s1 + 1\<rparr>) = Inr s'"
    using Cons.prems unfolding s1 by (intro Cons.IH) (auto simp: nth_list_update)
  then show ?case by (simp add: j)
qed

lemma well_formed_handle:
  "well_formed s \<Longrightarrow> i < length (threads s) \<Longrightarrow> threads s ! i = Some tid \<Longrightarrow>
     tid < length (workers s)"
  by (auto simp: well_formed_def list_all_length dest!: spec [of _ i])

lemma drained_all_exited:
  assumes "well_formed s" and "stop s1" and "workers s1 = workers s" and "threads s1 = threads s"
    and "length (tasks s1) \<le> length (tasks s)"
  shows "\<forall>i < length (threads (run_workers (drain_schedule s) s1)). \<forall>tid.
    threads (run_workers (drain_schedule s) s1) ! i = Some tid \<longrightarrow>
    exited (run_workers (drain_schedule s) s1) tid"
proof (intro allI impI)
  fix i tid
  assume "i < length (threads (run_workers (drain_schedule s) s1))"
    and "threads (run_workers (drain_schedule s) s1) ! i = Some tid"
  then have "tid < length (workers s1)"
    using well_formed_handle [OF assms(1), of i tid] assms(3,4) by simp
  with workers_run_to_exit [OF assms(2), of "[0..<length (workers s1)]"
      "2 * length (tasks s) + 2"] assms(5)
  show "exited (run_workers (drain_schedule s) s1) tid"
    by (simp add: drain_schedule_def assms(3))
qed

lemma Destroy_returns:
  assumes "well_formed s"
  shows "\<exists>s'. Destroy (drain_schedule s) s = Inr s'"
  unfolding Destroy_def
  by (rule destroy_loop_returns) (simp_all add: drained_all_exited [OF assms])

lemma ResetThreadNum_returns:
  assumes "well_formed s"
  shows "\<exists>s'. ResetThreadNum k (drain_schedule s) s = Inr s'"
proof (cases "k < num_threads s")
  case True
  let ?s2 = "run_workers (drain_schedule s) (kill_loop (s\<lparr>stop := True\<rparr>))"
  have n: "num_threads ?s2 = length (threads ?s2)"
    using assms by (simp add: kill_loop_eq well_formed_def)
  have "\<exists>s3. join_loop [k..<num_threads ?s2] ?s2 = Inr s3"
  proof (rule join_loop_returns)
    show "\<forall>i \<in> set [k..<num_threads ?s2]. i < length (threads ?s2)"
      unfolding n by simp
    show "\<forall>i < length (threads ?s2). \<forall>tid. threads ?s2 ! i = Some tid \<longrightarrow> exited ?s2 tid"
      by (rule drained_all_exited [OF assms]) (simp_all add: kill_loop_eq)
  qed
  then obtain s3 where j: "join_loop [k..<num_threads ?s2] ?s2 = Inr s3" ..
  note j3 = join_loop_Inr [OF j]
  have "threads s3 ! i = None" if "k \<le> i" "i < length (threads s3)" for i
    using j3 that n by simp
  then have "\<not> list_ex (\<lambda>h. h \<noteq> None) (drop k (threads s3))"
    by (auto simp: list_ex_iff in_set_conv_nth)
  then have "\<exists>s4. resize_threads k s3 = Inr s4"
    by (simp add: resize_threads_def)
  then show ?thesis
    using True j by (auto simp: ResetThreadNum_def Let_def)
next
  case False
  then show ?thesis by (simp add: ResetThreadNum_def)
qed

subsection \<open>Well-formed pools\<close>

lemma detach_thread_Inr:
  assumes "detach_thread i s = Inr s'"
  shows "s' = s\<lparr>threads := (threads s)[i := None], num_detached := num_detached s + 1\<rparr>"
  using assms by (simp add: detach_thread_def split: if_splits option.splits)

lemma handle_ok_workers: "length (workers s') = length (workers s) \<Longrightarrow> handle_ok s' h = handle_ok s h"
  by (cases h) simp_all

lemma well_formed_cong:
  assumes "well_formed s" and "length (workers s') = length (workers s)"
    and "threads s' = threads s" and "num_threads s' = num_threads s"
  shows "well_formed s'"
  using assms by (simp add: well_formed_def list_all_iff handle_ok_workers [of s' s])

lemma well_formed_ThreadPool: "well_formed (ThreadPool n)"
  by (simp add: ThreadPool_eq well_formed_def list_all_iff)

lemma well_formed_kill_loop: "well_formed s \<Longrightarrow> well_formed (kill_loop s)"
  by (erule well_formed_cong) (simp_all add: kill_loop_eq)

lemma well_formed_worker_step: "well_formed s \<Longrightarrow> well_formed (worker_step tid s)"
  by (erule well_formed_cong) simp_all

lemma handle_ok_updates [simp]:
  "handle_ok (s\<lparr>threads := ts\<rparr>) h = handle_ok s h"
  "handle_ok (s\<lparr>num_detached := n\<rparr>) h = handle_ok s h"
  "handle_ok (s\<lparr>num_threads := n\<rparr>) h = handle_ok s h"
  "handle_ok (s\<lparr>stop := b\<rparr>) h = handle_ok s h"
  by (cases h; simp)+

lemma join_thread_well_formed:
  assumes "well_formed s" and "join_thread i s = Inr s'"
  shows "well_formed s'"
proof -
  have "set ((threads s)[i := None]) \<subseteq> insert None (set (threads s))"
    by (rule set_update_subset_insert)
  with assms(1) show ?thesis
    unfolding join_thread_Inr(1) [OF assms(2)]
    by (auto simp: well_formed_def list_all_iff)
qed

lemma detach_thread_well_formed:
  assumes "well_formed s" and "detach_thread i s = Inr s'"
  shows "well_formed s'"
proof -
  have "set ((threads s)[i := None]) \<subseteq> insert None (set (threads s))"
    by (rule set_update_subset_insert)
  with assms(1) show ?thesis
    unfolding detach_thread_Inr [OF assms(2)]
    by (auto simp: well_formed_def list_all_iff)
qed

lemma resize_well_formed:
  assumes "well_formed s" and "resize_threads k s = Inr s'"
  shows "well_formed (s'\<lparr>num_threads := k, stop := False\<rparr>)"
proof -
  have "x \<in> set (threads s)" if "x \<in> set (take k (threads s))" for x
    using that by (rule in_set_takeD)
  with assms(1) show ?thesis
    unfolding resize_threads_Inr [OF assms(2)]
    by (auto simp: well_formed_def list_all_iff)
qed

lemma grow_well_formed:
  assumes "well_formed s" and "num_threads s < k"
  shows "well_formed (spawn_loop (length (threads s)) k (s\<lparr>num_threads := k\<rparr>))"
proof -
  from assms(1) have n: "num_threads s = length (threads s)"
    and h: "\<forall>x \<in> set (threads s). handle_ok s x"
    by (simp_all add: well_formed_def list_all_iff)
  have "handle_ok (spawn_loop (length (threads s)) k (s\<lparr>num_threads := k\<rparr>)) x"
    if "x \<in> set (threads s)" for x
    using h that by (cases x) (auto simp: spawn_loop_eq)
  then show ?thesis
    using assms(2) n by (auto simp: well_formed_def list_all_iff spawn_loop_eq)
qed

lemma stop_update_well_formed: "well_formed s \<Longrightarrow> well_formed (s\<lparr>stop := b\<rparr>)"
  by (erule well_formed_cong) simp_all

lemma step_well_formed:
  assumes "well_formed s" and "step a (p, s) = Some (p', s')"
  shows "well_formed s'"
proof (cases a)
  case (Invoke_enqueue t)
  have "well_formed (s\<lparr>tasks := tasks s @ [t]\<rparr>)"
    using assms(1) by (elim well_formed_cong) simp_all
  with assms Invoke_enqueue show ?thesis
    by (cases p) (auto split: if_splits)
next
  case Invoke_count
  have "well_formed (s\<lparr>num_started := num_started s + 1\<rparr>)"
    using assms(1) by (elim well_formed_cong) simp_all
  with assms Invoke_count show ?thesis
    by (cases p) auto
next
  case Call_KillAllPending
  with assms show ?thesis
    by (cases p) (auto simp: KillAllPending_def well_formed_kill_loop)
next
  case Call_Stop
  with assms show ?thesis
    by (cases p) (auto simp: Stop_def well_formed_kill_loop stop_update_well_formed)
next
  case (Reset_begin k)
  with assms show ?thesis
    by (cases p)
      (auto simp: well_formed_kill_loop stop_update_well_formed grow_well_formed
        split: if_splits)
next
  case Reset_join
  with assms show ?thesis
    by (cases p) (auto split: if_splits sum.splits dest: join_thread_well_formed)
next
  case Reset_end
  with assms show ?thesis
    by (cases p) (auto split: if_splits sum.splits dest: resize_well_formed)
next
  case Detach_begin
  with assms show ?thesis
    by (cases p) (auto simp: stop_update_well_formed)
next
  case Detach_next
  with assms show ?thesis
    by (cases p) (auto split: if_splits sum.splits dest: detach_thread_well_formed)
next
  case Detach_end
  with assms show ?thesis
    by (cases p) (auto split: if_splits)
next
  case (Turn tid)
  with assms show ?thesis
    by (auto simp: well_formed_worker_step)
qed

text \<open>
  Every state of a pool between its construction and its destruction is well-formed, inside
  a call as well as between two calls.
\<close>

lemma reachable_well_formed:
  assumes "reachable c"
  shows "well_formed (snd c)"
  using assms
proof (induction rule: reachable.induct)
  case (construct n)
  show ?case by (simp add: well_formed_ThreadPool)
next
  case (step c a c')
  obtain p s p' s' where c: "c = (p, s)" and c': "c' = (p', s')"
    by (cases c, cases c') blast
  from step.IH have "well_formed s" by (simp add: c)
  moreover from step.hyps(2) have "step a (p, s) = Some (p', s')"
    by (simp add: c c')
  ultimately have "well_formed s'" by (rule step_well_formed)
  then show ?case by (simp add: c')
qed

subsection \<open>The account of the tasks\<close>

lemma filter_update_count:
  "i < length ws \<Longrightarrow>
     length (filter P (ws[i := w])) + (if P (ws ! i) then 1 else 0) =
     length (filter P ws) + (if P w then 1 else 0)"
proof (induction ws arbitrary: i)
  case Nil
  then show ?case by simp
next
  case (Cons x ws)
  show ?case
  proof (cases i)
    case 0
    then show ?thesis by simp
  next
    case (Suc j)
    with Cons.prems have "j < length ws" by simp
    from Cons.IH [OF this] show ?thesis using Suc by simp
  qed
qed

lemma in_flight_update:
  "tid < length (workers s) \<Longrightarrow>
     in_flight (s\<lparr>workers := (workers s)[tid := w]\<rparr>) + (if is_running (workers s ! tid) then 1 else 0) =
     in_flight s + (if is_running w then 1 else 0)"
  using filter_update_count [of tid "workers s" is_running w] by (simp add: in_flight_def)

lemma in_flight_simps [simp]:
  "in_flight (s\<lparr>tasks := q\<rparr>) = in_flight s"
  "in_flight (s\<lparr>threads := ts\<rparr>) = in_flight s"
  "in_flight (s\<lparr>stop := b\<rparr>) = in_flight s"
  "in_flight (s\<lparr>num_threads := n\<rparr>) = in_flight s"
  "in_flight (s\<lparr>num_started := n\<rparr>) = in_flight s"
  "in_flight (s\<lparr>num_killed := n\<rparr>) = in_flight s"
  "in_flight (s\<lparr>num_finished := n\<rparr>) = in_flight s"
  "in_flight (s\<lparr>num_detached := n\<rparr>) = in_flight s"
  by (simp_all add: in_flight_def)

lemma conserved_worker_step: "conserved u s \<Longrightarrow> conserved u (worker_step tid s)"
proof (cases "tid < length (workers s)")
  case False
  assume "conserved u s"
  with False show ?thesis by (simp add: worker_step_def)
next
  case True
  note upd = in_flight_update [OF True]
  assume c: "conserved u s"
  show ?thesis
  proof (cases "workers s ! tid")
    case Exited
    with c True show ?thesis by (simp add: worker_step_def)
  next
    case (Running t)
    with c True upd [of Waiting] show ?thesis
      by (simp add: worker_step_def conserved_def)
  next
    case Waiting
    show ?thesis
    proof (cases "tasks s")
      case Nil
      with c True Waiting upd [of Exited] show ?thesis
        by (simp add: worker_step_def conserved_def)
    next
      case (Cons t q)
      with c True Waiting upd [of "Running t"] show ?thesis
        by (simp add: worker_step_def conserved_def)
    qed
  qed
qed

lemma conserved_run_workers: "conserved u s \<Longrightarrow> conserved u (run_workers sched s)"
  by (induction sched arbitrary: s) (simp_all add: conserved_worker_step)

lemma conserved_kill_loop: "conserved u s \<Longrightarrow> conserved u (kill_loop s)"
  by (simp add: kill_loop_eq conserved_def)

lemma conserved_stop_update [simp]: "conserved u (s\<lparr>stop := b\<rparr>) = conserved u s"
  by (simp add: conserved_def)

lemma conserved_threads_update [simp]: "conserved u (s\<lparr>threads := ts\<rparr>) = conserved u s"
  by (simp add: conserved_def)

lemma conserved_num_threads_update [simp]:
  "conserved u (s\<lparr>num_threads := n\<rparr>) = conserved u s"
  by (simp add: conserved_def)

lemma conserved_num_detached_update [simp]:
  "conserved u (s\<lparr>num_detached := n\<rparr>) = conserved u s"
  by (simp add: conserved_def)

lemma conserved_spawn_loop: "conserved u (spawn_loop i n s) = conserved u s"
  by (simp add: spawn_loop_eq conserved_def in_flight_def)

lemma step_conserved:
  assumes "conserved (uncounted p) s" and "step a (p, s) = Some (p', s')"
  shows "conserved (uncounted p') s'"
proof (cases a)
  case (Invoke_enqueue t)
  with assms show ?thesis
    by (cases p) (auto simp: conserved_def split: if_splits)
next
  case Invoke_count
  with assms show ?thesis
    by (cases p) (auto simp: conserved_def)
next
  case Call_KillAllPending
  with assms show ?thesis
    by (cases p) (auto simp: KillAllPending_def conserved_kill_loop)
next
  case Call_Stop
  with assms show ?thesis
    by (cases p) (auto simp: Stop_def conserved_kill_loop)
next
  case (Reset_begin k)
  with assms show ?thesis
    by (cases p) (auto simp: conserved_kill_loop conserved_spawn_loop split: if_splits)
next
  case Reset_join
  with assms show ?thesis
    by (cases p) (auto split: if_splits sum.splits dest!: join_thread_Inr(1))
next
  case Reset_end
  with assms show ?thesis
    by (cases p) (auto split: if_splits sum.splits dest!: resize_threads_Inr)
next
  case Detach_begin
  with assms show ?thesis
    by (cases p) auto
next
  case Detach_next
  with assms show ?thesis
    by (cases p) (auto split: if_splits sum.splits dest!: detach_thread_Inr)
next
  case Detach_end
  with assms show ?thesis
    by (cases p) (auto split: if_splits)
next
  case (Turn tid)
  with assms show ?thesis
    by (auto simp: conserved_worker_step)
qed

subsection \<open>StopForced returns\<close>

lemma StopForced_returns:
  assumes "well_formed s"
  shows "\<exists>s'. StopForced (drain_schedule (Stop s)) s = Inr s'"
proof -
  have "well_formed (s\<lparr>stop := True\<rparr>)"
    using assms by (elim well_formed_cong) simp_all
  then have "well_formed (Stop s)"
    unfolding Stop_def by (rule well_formed_kill_loop)
  from ResetThreadNum_returns [OF this, of 0] show ?thesis
    by (simp add: StopForced_def Stop_def)
qed

subsection \<open>Whole calls, step by step\<close>

text \<open>
  The member functions as functions on pool states, which the properties of single calls
  below are about, are runs of the step-by-step system: what a whole call returns is
  reachable whenever the state it was called in is.
\<close>

lemma reachable_run:
  assumes "reachable c" and "run acts c = Some c'"
  shows "reachable c'"
  using assms
proof (induction acts arbitrary: c)
  case Nil
  then show ?case by simp
next
  case (Cons a acts)
  from Cons.prems(2) obtain c1 where s: "step a c = Some c1" and r: "run acts c1 = Some c'"
    by (auto split: option.splits)
  from Cons.prems(1) s have "reachable c1" by (rule reachable.step)
  then show ?case using r by (rule Cons.IH)
qed

lemma reachable_turns:
  assumes "reachable (p, s)"
  shows "reachable (p, run_workers sched s)"
  using assms
proof (induction sched arbitrary: s)
  case Nil
  then show ?case by simp
next
  case (Cons tid sched)
  have "step (Turn tid) (p, s) = Some (p, worker_step tid s)" by simp
  with Cons.prems have "reachable (p, worker_step tid s)" by (rule reachable.step)
  then show ?case by (simp add: Cons.IH)
qed

lemma reachable_Invoke:
  assumes "reachable (Idle, s)"
  shows "reachable (Idle, Invoke t s)"
proof (cases "stop s")
  case True
  then have "step (Invoke_enqueue t) (Idle, s) = Some (Idle, Invoke t s)"
    by (simp add: Invoke_def)
  with assms show ?thesis by (rule reachable.step)
next
  case False
  then have "run [Invoke_enqueue t, Invoke_count] (Idle, s) = Some (Idle, Invoke t s)"
    by (simp add: Invoke_def)
  with assms show ?thesis by (rule reachable_run)
qed

lemma reachable_KillAllPending:
  assumes "reachable (Idle, s)"
  shows "reachable (Idle, KillAllPending s)"
  using assms by (rule reachable.step [where a = Call_KillAllPending]) simp

lemma reachable_Stop:
  assumes "reachable (Idle, s)"
  shows "reachable (Idle, Stop s)"
  using assms by (rule reachable.step [where a = Call_Stop]) simp

lemma reachable_joins:
  assumes "join_loop [i..<n] s = Inr s'" and "num_threads s = n" and "i \<le> n"
    and "reachable (Resetting k i, s)"
  shows "reachable (Resetting k n, s') \<and> num_threads s' = n"
  using assms
proof (induction "n - i" arbitrary: i s)
  case 0
  then show ?case by simp
next
  case (Suc d)
  then have i: "i < n" by simp
  then have u: "[i..<n] = i # [Suc i..<n]" by (rule upt_conv_Cons)
  from Suc.prems(1) obtain s1 where j: "join_thread i s = Inr s1"
    and l: "join_loop [Suc i..<n] s1 = Inr s'"
    unfolding u by (auto split: sum.splits)
  have n1: "num_threads s1 = n"
    unfolding join_thread_Inr(1) [OF j] using Suc.prems(2) by simp
  have "step Reset_join (Resetting k i, s) = Some (Resetting k (Suc i), s1)"
    using i j Suc.prems(2) by simp
  with Suc.prems(4) have "reachable (Resetting k (Suc i), s1)" by (rule reachable.step)
  with Suc.hyps(2) i l n1 show ?case
    by (intro Suc.hyps(1)) simp_all
qed

lemma reachable_ResetThreadNum:
  assumes "reachable (Idle, s)" and "ResetThreadNum k sched s = Inr s'"
  shows "reachable (Idle, s')"
proof (cases "k < num_threads s")
  case True
  let ?s1 = "kill_loop (s\<lparr>stop := True\<rparr>)"
  let ?s2 = "run_workers sched ?s1"
  let ?n = "num_threads s"
  have n2: "num_threads ?s2 = ?n" by (simp add: kill_loop_eq)
  from assms(2) True obtain s3 s4 where j: "join_loop [k..<?n] ?s2 = Inr s3"
    and r: "resize_threads k s3 = Inr s4" and e: "s' = s4\<lparr>num_threads := k, stop := False\<rparr>"
    by (auto simp: ResetThreadNum_def Let_def kill_loop_eq split: sum.splits)
  have "step (Reset_begin k) (Idle, s) = Some (Resetting k k, ?s1)"
    using True by simp
  with assms(1) have "reachable (Resetting k k, ?s1)" by (rule reachable.step)
  then have "reachable (Resetting k k, ?s2)" by (rule reachable_turns)
  with j n2 True have "reachable (Resetting k ?n, s3) \<and> num_threads s3 = ?n"
    by (intro reachable_joins) simp_all
  then have r3: "reachable (Resetting k ?n, s3)" and n3: "num_threads s3 = ?n" by simp_all
  have "step Reset_end (Resetting k ?n, s3) = Some (Idle, s')"
    using n3 r e by simp
  with r3 show ?thesis by (rule reachable.step)
next
  case False
  have "step (Reset_begin k) (Idle, s) = Some (Idle, s')"
    using False assms(2) by (auto simp: ResetThreadNum_def split: if_splits)
  with assms(1) show ?thesis by (rule reachable.step)
qed

lemma reachable_StopForced:
  assumes "reachable (Idle, s)" and "StopForced sched s = Inr s'"
  shows "reachable (Idle, s')"
proof -
  from assms(1) have "reachable (Idle, Stop s)" by (rule reachable_Stop)
  moreover from assms(2) have "ResetThreadNum 0 sched (Stop s) = Inr s'"
    by (simp add: StopForced_def Stop_def)
  ultimately show ?thesis by (rule reachable_ResetThreadNum)
qed

lemma reachable_detaches:
  assumes "detach_loop [i..<n] s = Inr s'" and "length (threads s) = n" and "i \<le> n"
    and "reachable (Detaching i, s)"
  shows "reachable (Detaching n, s') \<and> length (threads s') = n"
  using assms
proof (induction "n - i" arbitrary: i s)
  case 0
  then show ?case by simp
next
  case (Suc d)
  then have i: "i < n" by simp
  then have u: "[i..<n] = i # [Suc i..<n]" by (rule upt_conv_Cons)
  from Suc.prems(1) obtain s1 where j: "detach_thread i s = Inr s1"
    and l: "detach_loop [Suc i..<n] s1 = Inr s'"
    unfolding u by (auto split: sum.splits)
  have n1: "length (threads s1) = n"
    unfolding detach_thread_Inr [OF j] using Suc.prems(2) by simp
  have "step Detach_next (Detaching i, s) = Some (Detaching (Suc i), s1)"
    using i j Suc.prems(2) by simp
  with Suc.prems(4) have "reachable (Detaching (Suc i), s1)" by (rule reachable.step)
  with Suc.hyps(2) i l n1 show ?case
    by (intro Suc.hyps(1)) simp_all
qed

lemma reachable_Detach:
  assumes "reachable (Idle, s)" and "Detach s = Inr s'"
  shows "reachable (Idle, s')"
proof -
  let ?n = "length (threads s)"
  have "step Detach_begin (Idle, s) = Some (Detaching 0, s\<lparr>stop := True\<rparr>)" by simp
  with assms(1) have "reachable (Detaching 0, s\<lparr>stop := True\<rparr>)" by (rule reachable.step)
  moreover from assms(2) have "detach_loop [0..<?n] (s\<lparr>stop := True\<rparr>) = Inr s'"
    by (simp add: Detach_def)
  ultimately have "reachable (Detaching ?n, s') \<and> length (threads s') = ?n"
    by (intro reachable_detaches) simp_all
  then have r: "reachable (Detaching ?n, s')" and n: "length (threads s') = ?n" by simp_all
  have "step Detach_end (Detaching ?n, s') = Some (Idle, s')"
    using n by simp
  with r show ?thesis by (rule reachable.step)
qed

subsection \<open>Waiters and workers that have exited\<close>

lemma notifies_finished_Turn_only: "notifies_finished a c \<Longrightarrow> \<exists>tid. a = Turn tid"
  by (cases a; cases c) simp_all

lemma wakeups_without_turns:
  assumes "\<forall>a \<in> set acts. \<forall>tid. a \<noteq> Turn tid"
  shows "wakeups acts c = []"
  using assms
proof (induction acts arbitrary: c)
  case Nil
  show ?case by simp
next
  case (Cons a acts)
  then have "\<not> notifies_finished a c"
    using notifies_finished_Turn_only [of a c] by auto
  with Cons show ?case
    by (simp split: option.splits)
qed

lemma worker_step_exited:
  "list_all (\<lambda>w. w = Exited) (workers s) \<Longrightarrow> worker_step tid s = s"
  by (simp add: worker_step_def list_all_length)

lemma run_workers_exited:
  "list_all (\<lambda>w. w = Exited) (workers s) \<Longrightarrow> run_workers sched s = s"
  by (induction sched) (simp_all add: worker_step_exited)

subsection \<open>Invoke on a stopped pool\<close>

text \<open>
  C3. When \<^verbatim>\<open>_stop\<close> is set, \<^verbatim>\<open>Invoke\<close> returns the pool exactly as it found it:
  the queue, the four counters, the thread count, the handles and the stop flag are all
  the same. \<^verbatim>\<open>Invoke\<close> has no error result at all, so nothing is reported to the caller.
\<close>

theorem Invoke_stopped_noop: "stop s \<Longrightarrow> Invoke t s = s"
  by (simp add: Invoke_def)

theorem Invoke_stopped_noop_witness:
  "stop (Stop (ThreadPool 2 :: string pool)) \<and>
   Invoke ''job'' (Stop (ThreadPool 2)) = Stop (ThreadPool 2)"
  using Invoke_stopped_noop [of "Stop (ThreadPool 2)" "''job''"]
  by (simp add: Stop_stop)

subsection \<open>Invoke on a running pool\<close>

text \<open>
  C7. When \<^verbatim>\<open>_stop\<close> is clear, \<^verbatim>\<open>Invoke\<close> puts the task behind every task already
  pending and adds one to \<^verbatim>\<open>_num_started\<close>; the other counters, the thread count, the
  handles, the workers and the stop flag stay as they were. The queue is first in, first
  out: the next task a waiting worker takes from the new queue is its oldest one, and the
  tasks left behind keep their order.
\<close>

theorem Invoke_enqueues:
  assumes "\<not> stop s"
  shows "tasks (Invoke t s) = tasks s @ [t] \<and>
    StartedNum (Invoke t s) = StartedNum s + 1 \<and>
    FinishedNum (Invoke t s) = FinishedNum s \<and>
    KilledNum (Invoke t s) = KilledNum s \<and>
    DetachedNum (Invoke t s) = DetachedNum s \<and>
    ThreadNum (Invoke t s) = ThreadNum s \<and>
    stop (Invoke t s) = stop s \<and>
    threads (Invoke t s) = threads s \<and>
    workers (Invoke t s) = workers s \<and>
    (\<forall>tid < length (workers s). workers s ! tid = Waiting \<longrightarrow>
       workers (worker_step tid (Invoke t s)) ! tid = Running (hd (tasks s @ [t])) \<and>
       tasks (worker_step tid (Invoke t s)) = tl (tasks s @ [t]))"
proof -
  have inv: "Invoke t s = s\<lparr>tasks := tasks s @ [t], num_started := num_started s + 1\<rparr>"
    using assms by (simp add: Invoke_def)
  have "workers (worker_step tid (Invoke t s)) ! tid = Running (hd (tasks s @ [t])) \<and>
      tasks (worker_step tid (Invoke t s)) = tl (tasks s @ [t])"
    if "tid < length (workers s)" "workers s ! tid = Waiting" for tid
    using that by (cases "tasks s") (simp_all add: inv worker_step_def)
  then show ?thesis
    by (simp add: inv accessor_defs)
qed

theorem Invoke_enqueues_witness:
  "\<not> stop (Invoke ''a'' (ThreadPool 1 :: string pool)) \<and>
   tasks (Invoke ''b'' (Invoke ''a'' (ThreadPool 1 :: string pool))) = [''a'', ''b''] \<and>
   StartedNum (Invoke ''b'' (Invoke ''a'' (ThreadPool 1 :: string pool))) = 2 \<and>
   workers (worker_step 0 (Invoke ''b'' (Invoke ''a'' (ThreadPool 1 :: string pool)))) ! 0
     = Running ''a'' \<and>
   tasks (worker_step 0 (Invoke ''b'' (Invoke ''a'' (ThreadPool 1 :: string pool)))) = [''b'']"
proof -
  let ?s = "Invoke ''a'' (ThreadPool 1 :: string pool)"
  have s: "?s = \<lparr>workers = [Waiting], threads = [Some 0], tasks = [''a''], num_threads = 1,
      num_started = 1, num_killed = 0, num_finished = 0, num_detached = 0, stop = False\<rparr>"
    by (simp add: Invoke_def ThreadPool_eq)
  have h: "\<not> stop ?s" unfolding s by simp
  show ?thesis
    using h Invoke_enqueues [OF h, of "''b''"] unfolding s by (simp add: accessor_defs)
qed

subsection \<open>KillAllPending\<close>

text \<open>
  C5. \<^verbatim>\<open>KillAllPending\<close> empties the queue and adds to \<^verbatim>\<open>_num_killed\<close> the number of
  tasks that were pending when it was called. The stop flag, the counters of started,
  finished and detached, the thread count, the handles and the workers are unchanged.
\<close>

theorem KillAllPending_counts:
  "tasks (KillAllPending s) = [] \<and>
   KilledNum (KillAllPending s) = KilledNum s + PendingTaskNum s \<and>
   stop (KillAllPending s) = stop s \<and>
   StartedNum (KillAllPending s) = StartedNum s \<and>
   FinishedNum (KillAllPending s) = FinishedNum s \<and>
   DetachedNum (KillAllPending s) = DetachedNum s \<and>
   ThreadNum (KillAllPending s) = ThreadNum s \<and>
   threads (KillAllPending s) = threads s \<and>
   workers (KillAllPending s) = workers s"
  by (simp add: KillAllPending_def kill_loop_eq accessor_defs)

subsection \<open>Stop twice\<close>

text \<open>
  C6. A second \<^verbatim>\<open>Stop\<close> right after the first returns the pool state the first one
  produced: no counter and no other member changes. The same holds when the workers have
  taken any turns between the two calls (finishing the tasks they were running, exiting),
  as long as nothing was submitted.
\<close>

theorem Stop_idempotent:
  "Stop (Stop s) = Stop s \<and>
   Stop (run_workers sched (Stop s)) = run_workers sched (Stop s)"
proof
  show "Stop (Stop s) = Stop s"
    by (rule Stop_stopped) (simp_all add: Stop_stop Stop_tasks)
  show "Stop (run_workers sched (Stop s)) = run_workers sched (Stop s)"
    by (rule Stop_stopped) (simp_all add: Stop_stop Stop_tasks run_workers_no_tasks)
qed

subsection \<open>WaitTill\<close>

text \<open>
  What \<^verbatim>\<open>WaitTill\<close> does with the states it evaluates its predicate in: it returns in
  the first of them with \<open>finished + killed \<ge> n\<close>, or with the stop flag set unless that
  is ignored, it is still blocked while it has found none, and it returns whether
  \<open>finished \<ge> n\<close> in the state in which it returns.
\<close>

lemma WaitTill_first_observed:
  "((WaitTill n ign obs = Some b) =
      (\<exists>i<length obs.
         (n \<le> FinishedNum (obs ! i) + KilledNum (obs ! i) \<or> \<not> ign \<and> stop (obs ! i)) \<and>
         (\<forall>j<i. \<not> (n \<le> FinishedNum (obs ! j) + KilledNum (obs ! j) \<or> \<not> ign \<and> stop (obs ! j))) \<and>
         b = (n \<le> FinishedNum (obs ! i)))) \<and>
   ((WaitTill n ign obs = None) =
      (\<forall>i<length obs.
         \<not> (n \<le> FinishedNum (obs ! i) + KilledNum (obs ! i) \<or> \<not> ign \<and> stop (obs ! i))))"
proof -
  let ?pred = "\<lambda>s. n \<le> num_finished s + num_killed s \<or> \<not> ign \<and> stop s"
  have w: "WaitTill n ign obs = map_option (\<lambda>s. n \<le> num_finished s) (cv_wait ?pred obs)"
    by (rule WaitTill_cv_wait)
  have "(WaitTill n ign obs = Some b) =
      (\<exists>s. cv_wait ?pred obs = Some s \<and> b = (n \<le> num_finished s))"
    unfolding w by auto
  also have "\<dots> = (\<exists>i<length obs. ?pred (obs ! i) \<and> (\<forall>j<i. \<not> ?pred (obs ! j)) \<and>
      b = (n \<le> num_finished (obs ! i)))"
    unfolding cv_wait_Some_iff by blast
  finally have some: "(WaitTill n ign obs = Some b) =
      (\<exists>i<length obs. ?pred (obs ! i) \<and> (\<forall>j<i. \<not> ?pred (obs ! j)) \<and>
         b = (n \<le> num_finished (obs ! i)))" .
  have none: "(WaitTill n ign obs = None) = (\<forall>i<length obs. \<not> ?pred (obs ! i))"
    unfolding w by (simp add: cv_wait_None_iff)
  show ?thesis
    unfolding FinishedNum_def KilledNum_def using some none by blast
qed

text \<open>
  The waiter evaluates its predicate again only when \<^verbatim>\<open>_condition_finished\<close> has been
  notified, and no call does that: as long as no worker completes a task, the waiter
  sees the state of its call and nothing else.
\<close>

lemma WaitTill_sleeps_through_calls:
  assumes "\<forall>a \<in> set acts. \<forall>tid. a \<noteq> Turn tid"
  shows "WaitTill n ign (observed acts c) = WaitTill n ign [snd c]"
  by (simp add: observed_def wakeups_without_turns [OF assms])

text \<open>
  C2. The specification has \<^verbatim>\<open>WaitTill(n, ignoreStopSignal)\<close> block until
  \<open>finished + killed \<ge> n\<close> or, unless \<open>ignoreStopSignal\<close> is set, until the pool is
  stopped, whichever comes first, and return whether \<open>finished \<ge> n\<close> then. The code
  returns the right value when it returns, and does not return when it should:
  \<^item> A pool of one idle thread; \<^verbatim>\<open>WaitTill(1, false)\<close> blocks; \<^verbatim>\<open>Stop()\<close> sets the
    flag and the worker exits. The waiter is not notified and stays blocked, although it
    would return false in the state the pool is in.
  \<^item> A pool of no thread with one task invoked; \<^verbatim>\<open>WaitTill(1, true)\<close> blocks;
    \<^verbatim>\<open>KillAllPending()\<close> makes \<open>killed = 1\<close>. The waiter stays blocked.
  \<^item> When a worker completes the task instead, the waiter is notified and returns true.
\<close>

theorem WaitTill_misses_stop:
  "WaitTill 1 False (observed [] (Idle, ThreadPool 1 :: string pool)) = None \<and>
   run [Call_Stop, Turn 0] (Idle, ThreadPool 1 :: string pool) =
     Some (Idle,
       \<lparr>workers = [Exited], threads = [Some 0], tasks = [], num_threads = 1, num_started = 0,
        num_killed = 0, num_finished = 0, num_detached = 0, stop = True\<rparr>) \<and>
   WaitTill 1 False (observed [Call_Stop, Turn 0] (Idle, ThreadPool 1 :: string pool)) = None \<and>
   WaitTill 1 False
     [\<lparr>workers = [Exited], threads = [Some 0], tasks = [], num_threads = 1, num_started = 0,
       num_killed = 0, num_finished = 0, num_detached = 0, stop = True\<rparr> :: string pool]
     = Some False \<and>
   run [Invoke_enqueue ''a'', Invoke_count] (Idle, ThreadPool 0 :: string pool) =
     Some (Idle, Invoke ''a'' (ThreadPool 0)) \<and>
   WaitTill 1 True (observed [] (Idle, Invoke ''a'' (ThreadPool 0 :: string pool))) = None \<and>
   KilledNum (KillAllPending (Invoke ''a'' (ThreadPool 0 :: string pool))) = 1 \<and>
   WaitTill 1 True
     (observed [Call_KillAllPending] (Idle, Invoke ''a'' (ThreadPool 0 :: string pool))) = None \<and>
   WaitTill 1 False
     (observed [Turn 0, Turn 0] (Idle, Invoke ''a'' (ThreadPool 1 :: string pool))) = Some True"
  by code_simp

subsection \<open>WaitTillAll\<close>

text \<open>
  C9. \<^verbatim>\<open>WaitTillAll(ignoreStopSignal)\<close> is \<^verbatim>\<open>WaitTill\<close> with the target
  \<open>started + detached\<close> read at the call and the same flag: the same result in every
  case, and blocked in exactly the same cases. It is also what the specification's
  description of it says.
\<close>

theorem WaitTillAll_is_WaitTill:
  "WaitTillAll ign s obs = WaitTill (StartedNum s + DetachedNum s) ign obs \<and>
   WaitTillAll ign s obs = spec_WaitTillAll ign s obs"
proof
  show "WaitTillAll ign s obs = WaitTill (StartedNum s + DetachedNum s) ign obs"
    by (simp add: WaitTillAll_def StartedNum_def DetachedNum_def)
  show "WaitTillAll ign s obs = spec_WaitTillAll ign s obs"
    unfolding WaitTillAll_def spec_WaitTillAll_def WaitTill_cv_wait cv_wait_find ..
qed

subsection \<open>The counters\<close>

text \<open>
  C1, as the specification states it, holds \<open>finished + killed \<le> started\<close> in every state
  a pool reaches, destruction included. It fails in two places.
  \<^item> \<^verbatim>\<open>Destroy\<close> adds one to \<^verbatim>\<open>_num_killed\<close> for every handle in \<^verbatim>\<open>_threads\<close>,
    whatever happened to the tasks: a pool constructed with one thread and destroyed at
    once has \<open>finished + killed = 1\<close> and \<open>started = 0\<close>.
  \<^item> \<^verbatim>\<open>Invoke\<close> counts the task after it has released the lock: on a pool of one
    thread the worker takes the task and completes it before \<^verbatim>\<open>_num_started++\<close>, and
    the pool is in \<open>finished = 1\<close>, \<open>started = 0\<close>.
\<close>

theorem counts_invariant_counterexample:
  "reachable (Idle, ThreadPool 1 :: string pool) \<and>
   Destroy [0] (ThreadPool 1 :: string pool) =
     Inr \<lparr>workers = [Exited], threads = [None], tasks = [], num_threads = 1, num_started = 0,
          num_killed = 1, num_finished = 0, num_detached = 0, stop = True\<rparr> \<and>
   \<not> (FinishedNum (projr (Destroy [0] (ThreadPool 1 :: string pool))) +
        KilledNum (projr (Destroy [0] (ThreadPool 1 :: string pool)))
        \<le> StartedNum (projr (Destroy [0] (ThreadPool 1 :: string pool)))) \<and>
   run [Invoke_enqueue ''a'', Turn 0, Turn 0] (Idle, ThreadPool 1 :: string pool) =
     Some (Invoking,
       \<lparr>workers = [Waiting], threads = [Some 0], tasks = [], num_threads = 1, num_started = 0,
        num_killed = 0, num_finished = 1, num_detached = 0, stop = False\<rparr>) \<and>
   reachable (Invoking,
       \<lparr>workers = [Waiting], threads = [Some 0], tasks = [], num_threads = 1, num_started = 0,
        num_killed = 0, num_finished = 1, num_detached = 0, stop = False\<rparr> :: string pool) \<and>
   \<not> (FinishedNum
          (snd (the (run [Invoke_enqueue ''a'', Turn 0, Turn 0] (Idle, ThreadPool 1 :: string pool)))) +
        KilledNum
          (snd (the (run [Invoke_enqueue ''a'', Turn 0, Turn 0] (Idle, ThreadPool 1 :: string pool))))
        \<le> StartedNum
          (snd (the (run [Invoke_enqueue ''a'', Turn 0, Turn 0] (Idle, ThreadPool 1 :: string pool)))))"
proof -
  let ?M = "\<lparr>workers = [Waiting], threads = [Some 0], tasks = [], num_threads = 1,
      num_started = 0, num_killed = 0, num_finished = 1, num_detached = 0, stop = False\<rparr>
      :: string pool"
  have c: "reachable (Idle, ThreadPool 1 :: string pool)"
    by (rule reachable.construct)
  have d: "Destroy [0] (ThreadPool 1 :: string pool) =
     Inr \<lparr>workers = [Exited], threads = [None], tasks = [], num_threads = 1, num_started = 0,
          num_killed = 1, num_finished = 0, num_detached = 0, stop = True\<rparr>"
    by code_simp
  have r: "run [Invoke_enqueue ''a'', Turn 0, Turn 0] (Idle, ThreadPool 1 :: string pool) =
      Some (Invoking, ?M)"
    by code_simp
  have m: "reachable (Invoking, ?M)"
    using c r by (rule reachable_run)
  show ?thesis
    unfolding d r using c m by (simp add: accessor_defs)
qed

text \<open>
  C1, amended. In every state that a pool reaches from its construction by calls of
  \<^verbatim>\<open>Invoke\<close>, \<^verbatim>\<open>KillAllPending\<close>, \<^verbatim>\<open>Stop\<close>, \<^verbatim>\<open>StopForced\<close>,
  \<^verbatim>\<open>ResetThreadNum\<close> and \<^verbatim>\<open>Detach\<close>, issued one after the other in any order, with
  the workers running at any time, inside the calls too: \<open>started\<close>, and the one task that
  an \<^verbatim>\<open>Invoke\<close> in progress has placed in the queue and not yet counted, is the sum of
  the finished, the killed, the pending and the running tasks, so that no task is counted
  both as finished and as killed; and \<open>finished + killed \<le> started\<close> whenever the caller is
  not between the two halves of \<^verbatim>\<open>Invoke\<close>. Destruction is left out.
\<close>

theorem counts_invariant:
  assumes "reachable (p, s)"
  shows "StartedNum s + uncounted p =
      FinishedNum s + KilledNum s + PendingTaskNum s + in_flight s \<and>
    (p \<noteq> Invoking \<longrightarrow> FinishedNum s + KilledNum s \<le> StartedNum s)"
proof -
  have "conserved (uncounted (fst c)) (snd c)" if "reachable c" for c :: "pc \<times> 'a pool"
    using that
  proof (induction rule: reachable.induct)
    case (construct n)
    show ?case by (simp add: ThreadPool_eq conserved_def in_flight_def)
  next
    case (step c a c')
    obtain p s p' s' where c: "c = (p, s)" and c': "c' = (p', s')"
      by (cases c, cases c') blast
    from step.IH have "conserved (uncounted p) s" by (simp add: c)
    moreover from step.hyps(2) have "step a (p, s) = Some (p', s')"
      by (simp add: c c')
    ultimately have "conserved (uncounted p') s'" by (rule step_conserved)
    then show ?case by (simp add: c')
  qed
  from this [OF assms] have c: "conserved (uncounted p) s" by simp
  have "uncounted p = 0" if "p \<noteq> Invoking"
    using that by (cases p) simp_all
  with c show ?thesis
    by (auto simp: conserved_def accessor_defs)
qed

theorem counts_invariant_witness:
  "run [Invoke_enqueue ''a'', Invoke_count, Invoke_enqueue ''b'', Invoke_count, Turn 0, Call_Stop]
     (Idle, ThreadPool 1 :: string pool) =
     Some (Idle,
       \<lparr>workers = [Running ''a''], threads = [Some 0], tasks = [], num_threads = 1,
        num_started = 2, num_killed = 1, num_finished = 0, num_detached = 0, stop = True\<rparr>) \<and>
   reachable (Idle,
       \<lparr>workers = [Running ''a''], threads = [Some 0], tasks = [], num_threads = 1,
        num_started = 2, num_killed = 1, num_finished = 0, num_detached = 0, stop = True\<rparr>
       :: string pool) \<and>
   Idle \<noteq> Invoking \<and>
   FinishedNum
     (\<lparr>workers = [Running ''a''], threads = [Some 0], tasks = [], num_threads = 1,
       num_started = 2, num_killed = 1, num_finished = 0, num_detached = 0, stop = True\<rparr>
      :: string pool) +
   KilledNum
     (\<lparr>workers = [Running ''a''], threads = [Some 0], tasks = [], num_threads = 1,
       num_started = 2, num_killed = 1, num_finished = 0, num_detached = 0, stop = True\<rparr>
      :: string pool)
   \<le> StartedNum
     (\<lparr>workers = [Running ''a''], threads = [Some 0], tasks = [], num_threads = 1,
       num_started = 2, num_killed = 1, num_finished = 0, num_detached = 0, stop = True\<rparr>
      :: string pool)"
proof -
  let ?X = "\<lparr>workers = [Running ''a''], threads = [Some 0], tasks = [], num_threads = 1,
      num_started = 2, num_killed = 1, num_finished = 0, num_detached = 0, stop = True\<rparr>
      :: string pool"
  have e: "run [Invoke_enqueue ''a'', Invoke_count, Invoke_enqueue ''b'', Invoke_count, Turn 0,
      Call_Stop] (Idle, ThreadPool 1 :: string pool) = Some (Idle, ?X)"
    by code_simp
  have r: "reachable (Idle, ?X)"
    using reachable.construct e by (rule reachable_run)
  have i: "Idle \<noteq> Invoking" by simp
  note le = counts_invariant [OF r, THEN conjunct2, rule_format, OF i]
  show ?thesis
    by (intro conjI e r i le)
qed

subsection \<open>ResetThreadNum\<close>

text \<open>
  The parts of the specification's account of \<^verbatim>\<open>ResetThreadNum(k)\<close> that the code
  keeps: after the call has returned, \<^verbatim>\<open>ThreadNum()\<close> is \<open>k\<close>; when \<open>k\<close> is less than
  the thread count before the call, the stop flag is clear on return and \<^verbatim>\<open>Valid()\<close> is
  true; when \<open>k\<close> is the thread count before the call, the pool comes back unchanged; and
  the call returns on every well-formed pool once the workers have had the turns of
  \<open>drain_schedule\<close>.
\<close>

lemma ResetThreadNum_effect:
  "(ResetThreadNum k sched s = Inr s' \<longrightarrow>
      ThreadNum s' = k \<and> (k < ThreadNum s \<longrightarrow> Valid s' \<and> \<not> stop s')) \<and>
   (k = ThreadNum s \<longrightarrow> ResetThreadNum k sched s = Inr s) \<and>
   (well_formed s \<longrightarrow> (\<exists>s''. ResetThreadNum k (drain_schedule s) s = Inr s''))"
proof (intro conjI)
  show "ResetThreadNum k sched s = Inr s' \<longrightarrow>
      ThreadNum s' = k \<and> (k < ThreadNum s \<longrightarrow> Valid s' \<and> \<not> stop s')"
    by (rule ResetThreadNum_result [THEN conjunct1])
  show "k = ThreadNum s \<longrightarrow> ResetThreadNum k sched s = Inr s"
    by (rule ResetThreadNum_result [THEN conjunct2])
  show "well_formed s \<longrightarrow> (\<exists>s''. ResetThreadNum k (drain_schedule s) s = Inr s'')"
    by (rule impI) (rule ResetThreadNum_returns)
qed

text \<open>
  The workers that are to stay are woken by the same \<^verbatim>\<open>notify_all\<close> and find the same
  stop flag as those that are to go. Under the schedule that lets every worker take its
  turns in the window, all of them have returned from their loop when the call returns.
\<close>

lemma shrink_under_drain_schedule:
  assumes "ResetThreadNum k (drain_schedule s) s = Inr s'" and "k < num_threads s"
  shows "list_all (\<lambda>w. w = Exited) (workers s') \<and> Valid s' \<and> ThreadNum s' = k"
proof -
  let ?s1 = "kill_loop (s\<lparr>stop := True\<rparr>)"
  let ?s2 = "run_workers (drain_schedule s) ?s1"
  note s' = ResetThreadNum_shrink [OF assms]
  have "\<forall>tid \<in> set [0..<length (workers ?s1)]. exited
      (run_workers (concat (map (replicate (2 * length (tasks s) + 2)) [0..<length (workers ?s1)]))
         ?s1) tid"
    by (rule workers_run_to_exit) (simp_all add: kill_loop_eq)
  then have "\<forall>tid < length (workers ?s2). exited ?s2 tid"
    by (simp add: drain_schedule_def kill_loop_eq)
  then have "list_all (\<lambda>w. w = Exited) (workers ?s2)"
    by (simp add: list_all_length exited_def)
  then show ?thesis
    unfolding s' by (simp add: accessor_defs)
qed

text \<open>
  C4. The specification has the pool usable again at the smaller size after
  \<^verbatim>\<open>ResetThreadNum(k)\<close> with \<open>k\<close> less than the thread count. The code does not get
  there: from a pool of two idle threads, \<^verbatim>\<open>ResetThreadNum(1)\<close> returns with
  \<^verbatim>\<open>ThreadNum()\<close> equal to 1, \<^verbatim>\<open>Valid()\<close> true and one joinable handle, whose
  thread has returned from \<^verbatim>\<open>_working_task\<close> like the other. \<^verbatim>\<open>Invoke\<close> then
  accepts a task, and no turn of any worker ever takes it from the queue.
\<close>

theorem ResetThreadNum_leaves_dead_workers:
  "ResetThreadNum 1 [1, 0] (ThreadPool 2 :: string pool) =
     Inr \<lparr>workers = [Exited, Exited], threads = [Some 0], tasks = [], num_threads = 1,
          num_started = 0, num_killed = 0, num_finished = 0, num_detached = 0, stop = False\<rparr> \<and>
   ResetThreadNum 1 (drain_schedule (ThreadPool 2 :: string pool)) (ThreadPool 2) =
     ResetThreadNum 1 [1, 0] (ThreadPool 2 :: string pool) \<and>
   Valid (projr (ResetThreadNum 1 [1, 0] (ThreadPool 2 :: string pool))) \<and>
   ThreadNum (projr (ResetThreadNum 1 [1, 0] (ThreadPool 2 :: string pool))) = 1 \<and>
   tasks (Invoke ''job'' (projr (ResetThreadNum 1 [1, 0] (ThreadPool 2 :: string pool))))
     = [''job''] \<and>
   (\<forall>sched.
      run_workers sched (Invoke ''job'' (projr (ResetThreadNum 1 [1, 0] (ThreadPool 2 :: string pool))))
      = Invoke ''job'' (projr (ResetThreadNum 1 [1, 0] (ThreadPool 2 :: string pool))))"
proof -
  let ?X = "\<lparr>workers = [Exited, Exited], threads = [Some 0], tasks = [], num_threads = 1,
      num_started = 0, num_killed = 0, num_finished = 0, num_detached = 0, stop = False\<rparr>
      :: string pool"
  have r: "ResetThreadNum 1 [1, 0] (ThreadPool 2 :: string pool) = Inr ?X"
    by code_simp
  have d: "ResetThreadNum 1 (drain_schedule (ThreadPool 2 :: string pool)) (ThreadPool 2) =
      ResetThreadNum 1 [1, 0] (ThreadPool 2 :: string pool)"
    by code_simp
  have v: "Valid ?X" and n: "ThreadNum ?X = 1" and i: "tasks (Invoke ''job'' ?X) = [''job'']"
    by code_simp+
  have "list_all (\<lambda>w. w = Exited) (workers (Invoke ''job'' ?X))"
    by (simp add: Invoke_def)
  then have w: "run_workers sched (Invoke ''job'' ?X) = Invoke ''job'' ?X" for sched
    by (rule run_workers_exited)
  show ?thesis
    unfolding r using d [unfolded r] v n i w by simp
qed

subsection \<open>StopForced\<close>

text \<open>
  C10. When \<^verbatim>\<open>StopForced\<close> has returned on a pool with at least one thread, the stop
  flag is clear: \<^verbatim>\<open>Valid()\<close> is true, the thread count is zero and no handle is left,
  and a following \<^verbatim>\<open>Invoke\<close> puts its task in the queue and counts it. On a pool
  whose thread count is zero, \<^verbatim>\<open>StopForced\<close> is \<^verbatim>\<open>Stop\<close>: the flag stays set,
  \<^verbatim>\<open>Valid()\<close> is false and \<^verbatim>\<open>Invoke\<close> does nothing. \<^verbatim>\<open>StopForced\<close> returns
  on every well-formed pool once the workers have had their turns.
\<close>

theorem StopForced_valid:
  "(StopForced sched s = Inr s' \<and> 1 \<le> ThreadNum s \<longrightarrow>
      Valid s' \<and> ThreadNum s' = 0 \<and> threads s' = [] \<and>
      tasks (Invoke t s') = [t] \<and> StartedNum (Invoke t s') = StartedNum s' + 1) \<and>
   (ThreadNum s = 0 \<longrightarrow>
      StopForced sched s = Inr (Stop s) \<and> \<not> Valid (Stop s) \<and> Invoke t (Stop s) = Stop s) \<and>
   (well_formed s \<longrightarrow> (\<exists>s''. StopForced (drain_schedule (Stop s)) s = Inr s''))"
proof (intro conjI)
  show "StopForced sched s = Inr s' \<and> 1 \<le> ThreadNum s \<longrightarrow>
      Valid s' \<and> ThreadNum s' = 0 \<and> threads s' = [] \<and>
      tasks (Invoke t s') = [t] \<and> StartedNum (Invoke t s') = StartedNum s' + 1"
    by (rule StopForced_result [THEN conjunct1])
  show "ThreadNum s = 0 \<longrightarrow>
      StopForced sched s = Inr (Stop s) \<and> \<not> Valid (Stop s) \<and> Invoke t (Stop s) = Stop s"
    by (rule StopForced_result [THEN conjunct2])
  show "well_formed s \<longrightarrow> (\<exists>s''. StopForced (drain_schedule (Stop s)) s = Inr s'')"
    by (rule impI) (rule StopForced_returns)
qed

theorem StopForced_valid_witness:
  "StopForced [0, 1, 0]
     (worker_step 0 (Invoke ''b'' (Invoke ''a'' (ThreadPool 2 :: string pool)))) =
     Inr \<lparr>workers = [Exited, Exited], threads = [], tasks = [], num_threads = 0,
          num_started = 2, num_killed = 1, num_finished = 1, num_detached = 0, stop = False\<rparr> \<and>
   1 \<le> ThreadNum (worker_step 0 (Invoke ''b'' (Invoke ''a'' (ThreadPool 2 :: string pool)))) \<and>
   Valid
     (\<lparr>workers = [Exited, Exited], threads = [], tasks = [], num_threads = 0,
       num_started = 2, num_killed = 1, num_finished = 1, num_detached = 0, stop = False\<rparr>
      :: string pool) \<and>
   tasks (Invoke ''c''
     \<lparr>workers = [Exited, Exited], threads = [], tasks = [], num_threads = 0,
      num_started = 2, num_killed = 1, num_finished = 1, num_detached = 0, stop = False\<rparr>)
     = [''c''] \<and>
   ThreadNum (ThreadPool 0 :: string pool) = 0 \<and>
   StopForced [] (ThreadPool 0 :: string pool) = Inr (Stop (ThreadPool 0)) \<and>
   \<not> Valid (Stop (ThreadPool 0 :: string pool)) \<and>
   well_formed (worker_step 0 (Invoke ''b'' (Invoke ''a'' (ThreadPool 2 :: string pool)))) \<and>
   (\<exists>s'. StopForced
      (drain_schedule
         (Stop (worker_step 0 (Invoke ''b'' (Invoke ''a'' (ThreadPool 2 :: string pool))))))
      (worker_step 0 (Invoke ''b'' (Invoke ''a'' (ThreadPool 2 :: string pool)))) = Inr s')"
proof -
  let ?P = "worker_step 0 (Invoke ''b'' (Invoke ''a'' (ThreadPool 2 :: string pool)))"
  let ?F = "\<lparr>workers = [Exited, Exited], threads = [], tasks = [], num_threads = 0,
      num_started = 2, num_killed = 1, num_finished = 1, num_detached = 0, stop = False\<rparr>
      :: string pool"
  have f: "StopForced [0, 1, 0] ?P = Inr ?F"
    by code_simp
  have n: "1 \<le> ThreadNum ?P" and z: "ThreadNum (ThreadPool 0 :: string pool) = 0"
    and wf: "well_formed ?P"
    by code_simp+
  note some = StopForced_valid [of "[0, 1, 0]" ?P ?F "''c''", THEN conjunct1, rule_format,
      OF conjI, OF f n]
  note none = StopForced_valid [of "[]" "ThreadPool 0 :: string pool" ?F "''c''",
      THEN conjunct2, THEN conjunct1, rule_format, OF z]
  note returns = StopForced_valid [of "[0, 1, 0]" ?P ?F "''c''", THEN conjunct2,
      THEN conjunct2, rule_format, OF wf]
  have v: "Valid ?F"
    by (rule some [THEN conjunct1])
  have i: "tasks (Invoke ''c'' ?F) = [''c'']"
    by (rule some [THEN conjunct2, THEN conjunct2, THEN conjunct2, THEN conjunct1])
  have s: "StopForced [] (ThreadPool 0 :: string pool) = Inr (Stop (ThreadPool 0))"
    by (rule none [THEN conjunct1])
  have w: "\<not> Valid (Stop (ThreadPool 0 :: string pool))"
    by (rule none [THEN conjunct2, THEN conjunct1])
  show ?thesis
    by (intro conjI f n v i z s w wf returns)
qed

subsection \<open>Destruction\<close>

text \<open>
  C8. When \<^verbatim>\<open>Destroy\<close>, the body of the destructor, has returned, the stop flag is
  set, every thread whose handle was joinable has exited and been joined, no handle is
  joinable any more, and \<^verbatim>\<open>_num_killed\<close> has grown by the number of handles in
  \<^verbatim>\<open>_threads\<close>, whatever the workers were doing. It returns on every well-formed
  pool once the workers have run to their exit.
\<close>

theorem Destroy_effect:
  "(Destroy sched s = Inr s' \<longrightarrow>
      stop s' \<and>
      (\<forall>i < length (threads s). \<forall>tid. threads s ! i = Some tid \<longrightarrow> exited s' tid) \<and>
      threads s' = replicate (length (threads s)) None \<and>
      KilledNum s' = KilledNum s + length (threads s)) \<and>
   (well_formed s \<longrightarrow> (\<exists>s''. Destroy (drain_schedule s) s = Inr s''))"
proof (rule conjI; rule impI)
  assume "Destroy sched s = Inr s'"
  then show "stop s' \<and>
      (\<forall>i < length (threads s). \<forall>tid. threads s ! i = Some tid \<longrightarrow> exited s' tid) \<and>
      threads s' = replicate (length (threads s)) None \<and>
      KilledNum s' = KilledNum s + length (threads s)"
    by (rule Destroy_result)
next
  assume "well_formed s"
  then show "\<exists>s''. Destroy (drain_schedule s) s = Inr s''"
    by (rule Destroy_returns)
qed

theorem Destroy_effect_witness:
  "Destroy [0, 0, 0, 0, 1]
     (worker_step 0 (Invoke ''b'' (Invoke ''a'' (ThreadPool 2 :: string pool)))) =
     Inr \<lparr>workers = [Exited, Exited], threads = [None, None], tasks = [], num_threads = 2,
          num_started = 2, num_killed = 2, num_finished = 2, num_detached = 0, stop = True\<rparr> \<and>
   workers (worker_step 0 (Invoke ''b'' (Invoke ''a'' (ThreadPool 2 :: string pool)))) =
     [Running ''a'', Waiting] \<and>
   KilledNum (worker_step 0 (Invoke ''b'' (Invoke ''a'' (ThreadPool 2 :: string pool)))) = 0 \<and>
   KilledNum
     (\<lparr>workers = [Exited, Exited], threads = [None, None], tasks = [], num_threads = 2,
       num_started = 2, num_killed = 2, num_finished = 2, num_detached = 0, stop = True\<rparr>
      :: string pool) = 2 \<and>
   well_formed (worker_step 0 (Invoke ''b'' (Invoke ''a'' (ThreadPool 2 :: string pool)))) \<and>
   (\<exists>s'. Destroy
      (drain_schedule (worker_step 0 (Invoke ''b'' (Invoke ''a'' (ThreadPool 2 :: string pool)))))
      (worker_step 0 (Invoke ''b'' (Invoke ''a'' (ThreadPool 2 :: string pool)))) = Inr s')"
proof -
  let ?P = "worker_step 0 (Invoke ''b'' (Invoke ''a'' (ThreadPool 2 :: string pool)))"
  let ?D = "\<lparr>workers = [Exited, Exited], threads = [None, None], tasks = [], num_threads = 2,
      num_started = 2, num_killed = 2, num_finished = 2, num_detached = 0, stop = True\<rparr>
      :: string pool"
  have d: "Destroy [0, 0, 0, 0, 1] ?P = Inr ?D"
    by code_simp
  have w: "workers ?P = [Running ''a'', Waiting]" and k: "KilledNum ?P = 0"
    and l: "length (threads ?P) = 2" and wf: "well_formed ?P"
    by code_simp+
  note effect = Destroy_effect [of "[0, 0, 0, 0, 1]" ?P ?D, THEN conjunct1, rule_format, OF d]
  note returns = Destroy_effect [of "[0, 0, 0, 0, 1]" ?P ?D, THEN conjunct2, rule_format, OF wf]
  have "KilledNum ?D = KilledNum ?P + length (threads ?P)"
    by (rule effect [THEN conjunct2, THEN conjunct2, THEN conjunct2])
  then have k': "KilledNum ?D = 2"
    unfolding k l by simp
  show ?thesis
    by (intro conjI d w k k' wf returns)
qed

end
